theory Spec2Isabelle
  imports Main "HOL-Library.Char_ord" "HOL-Library.List_Lexorder"
begin

section \<open>Python strings\<close>

text \<open>
  Text is modelled as \<^typ>\<open>string\<close>: a list of code points below 256. The three
  built-ins the scripts call on strings are \<^verbatim>\<open>str.isspace\<close> (inside
  \<^verbatim>\<open>str.strip\<close>), \<^verbatim>\<open>str.strip\<close> and \<^verbatim>\<open>str.lower\<close>.
\<close>

abbreviation LF :: char where "LF \<equiv> CHR 0x0A"
abbreviation CR :: char where "CR \<equiv> CHR 0x0D"
abbreviation DELIM :: char where "DELIM \<equiv> CHR '',''"
abbreviation QUOTE :: char where "QUOTE \<equiv> CHR 0x22"

definition isspace :: "char \<Rightarrow> bool" where
  "isspace c \<longleftrightarrow>
     c \<in> {CHR 0x09, CHR 0x0A, CHR 0x0B, CHR 0x0C, CHR 0x0D, CHR 0x1C, CHR 0x1D,
          CHR 0x1E, CHR 0x1F, CHR 0x20, CHR 0x85, CHR 0xA0}"

definition strip :: "string \<Rightarrow> string" where
  "strip s = rev (dropWhile isspace (rev (dropWhile isspace s)))"

definition lower_char :: "char \<Rightarrow> char" where
  "lower_char c =
     (let n = (of_char c :: nat)
      in if (65 \<le> n \<and> n \<le> 90) \<or> (192 \<le> n \<and> n \<le> 222 \<and> n \<noteq> 215)
         then char_of (n + 32) else c)"

definition lower :: "string \<Rightarrow> string" where
  "lower s = map lower_char s"

section \<open>Text files\<close>

text \<open>
  A file opened with \<^verbatim>\<open>newline=''\<close> yields its lines with their endings kept; a
  line ends at LF, at CR LF, or at a CR that no LF follows. \<open>cur\<close> is the part of the
  current line already seen.
\<close>

fun splitlines :: "string \<Rightarrow> string \<Rightarrow> string list" where
  "splitlines cur [] = (if cur = [] then [] else [cur])"
| "splitlines cur (c # cs) =
     (if c = LF then (cur @ [LF]) # splitlines [] cs
      else if c = CR then
        (case cs of
           [] \<Rightarrow> [cur @ [CR]]
         | d # ds \<Rightarrow>
             if d = LF then (cur @ [CR, LF]) # splitlines [] ds
             else (cur @ [CR]) # splitlines [] cs)
      else splitlines (cur @ [c]) cs)"

definition readlines :: "string \<Rightarrow> string list" where
  "readlines s = splitlines [] s"

text \<open>
  A file opened without the \<^verbatim>\<open>newline\<close> argument translates CR LF and a lone
  CR to LF before the lines are split.
\<close>

fun translate_newlines :: "string \<Rightarrow> string" where
  "translate_newlines [] = []"
| "translate_newlines (c # cs) =
     (if c = CR then
        (case cs of
           [] \<Rightarrow> [LF]
         | d # ds \<Rightarrow> if d = LF then LF # translate_newlines ds else LF # translate_newlines cs)
      else c # translate_newlines cs)"

definition readlines_translated :: "string \<Rightarrow> string list" where
  "readlines_translated s = splitlines [] (translate_newlines s)"

section \<open>The csv module, excel dialect\<close>

text \<open>
  Both scripts use \<^verbatim>\<open>csv.reader\<close>, \<^verbatim>\<open>csv.writer\<close>,
  \<^verbatim>\<open>csv.DictReader\<close> and \<^verbatim>\<open>csv.DictWriter\<close> with their defaults:
  delimiter comma, quote character double quote, doubled quotes, minimal quoting, line
  terminator CR LF, no escape character, not strict. The reader is the state machine of
  the module; the three escape states are left out, since without an escape character
  no transition enters them.
\<close>

datatype parser_state =
  START_RECORD | START_FIELD | IN_FIELD | IN_QUOTED_FIELD | QUOTE_IN_QUOTED_FIELD | EAT_CRNL

record reader_obj =
  rstate :: parser_state
  rfields :: "string list"
  rfield :: string

datatype csv_error = FieldLimit | NewlineInUnquotedField

definition field_size_limit :: nat where
  "field_size_limit = 131072"

definition parse_save_field :: "reader_obj \<Rightarrow> reader_obj" where
  "parse_save_field r = r\<lparr>rfields := rfields r @ [rfield r], rfield := []\<rparr>"

definition parse_add_char :: "reader_obj \<Rightarrow> char \<Rightarrow> csv_error + reader_obj" where
  "parse_add_char r c =
     (if length (rfield r) \<ge> field_size_limit then Inl FieldLimit
      else Inr (r\<lparr>rfield := rfield r @ [c]\<rparr>))"

text \<open>The character \<open>None\<close> is the end-of-line mark the reader feeds after each line.\<close>

definition is_newline :: "char option \<Rightarrow> bool" where
  "is_newline c \<longleftrightarrow> c = Some LF \<or> c = Some CR"

definition start_field :: "reader_obj \<Rightarrow> char option \<Rightarrow> csv_error + reader_obj" where
  "start_field r c =
     (if is_newline c \<or> c = None then
        Inr ((parse_save_field r)\<lparr>rstate := (if c = None then START_RECORD else EAT_CRNL)\<rparr>)
      else if c = Some QUOTE then Inr (r\<lparr>rstate := IN_QUOTED_FIELD\<rparr>)
      else if c = Some DELIM then Inr (parse_save_field (r\<lparr>rstate := START_FIELD\<rparr>))
      else (case parse_add_char r (the c) of
              Inl e \<Rightarrow> Inl e
            | Inr r' \<Rightarrow> Inr (r'\<lparr>rstate := IN_FIELD\<rparr>)))"

definition parse_process_char :: "reader_obj \<Rightarrow> char option \<Rightarrow> csv_error + reader_obj" where
  "parse_process_char r c =
     (case rstate r of
        START_RECORD \<Rightarrow>
          if c = None then Inr r
          else if is_newline c then Inr (r\<lparr>rstate := EAT_CRNL\<rparr>)
          else start_field r c
      | START_FIELD \<Rightarrow> start_field r c
      | IN_FIELD \<Rightarrow>
          if is_newline c \<or> c = None then
            Inr ((parse_save_field r)\<lparr>rstate := (if c = None then START_RECORD else EAT_CRNL)\<rparr>)
          else if c = Some DELIM then Inr ((parse_save_field r)\<lparr>rstate := START_FIELD\<rparr>)
          else parse_add_char r (the c)
      | IN_QUOTED_FIELD \<Rightarrow>
          if c = None then Inr r
          else if c = Some QUOTE then Inr (r\<lparr>rstate := QUOTE_IN_QUOTED_FIELD\<rparr>)
          else parse_add_char r (the c)
      | QUOTE_IN_QUOTED_FIELD \<Rightarrow>
          if c = Some QUOTE then
            (case parse_add_char r QUOTE of
               Inl e \<Rightarrow> Inl e
             | Inr r' \<Rightarrow> Inr (r'\<lparr>rstate := IN_QUOTED_FIELD\<rparr>))
          else if c = Some DELIM then Inr ((parse_save_field r)\<lparr>rstate := START_FIELD\<rparr>)
          else if is_newline c \<or> c = None then
            Inr ((parse_save_field r)\<lparr>rstate := (if c = None then START_RECORD else EAT_CRNL)\<rparr>)
          else (case parse_add_char r (the c) of
                  Inl e \<Rightarrow> Inl e
                | Inr r' \<Rightarrow> Inr (r'\<lparr>rstate := IN_FIELD\<rparr>))
      | EAT_CRNL \<Rightarrow>
          if is_newline c then Inr r
          else if c = None then Inr (r\<lparr>rstate := START_RECORD\<rparr>)
          else Inl NewlineInUnquotedField)"

fun feed_line :: "reader_obj \<Rightarrow> string \<Rightarrow> csv_error + reader_obj" where
  "feed_line r [] = Inr r"
| "feed_line r (c # cs) =
     (case parse_process_char r (Some c) of
        Inl e \<Rightarrow> Inl e
      | Inr r' \<Rightarrow> feed_line r' cs)"

text \<open>
  One call of the reader's \<^verbatim>\<open>__next__\<close>: lines are consumed until the state is
  \<open>START_RECORD\<close> again. The result is the record (\<open>None\<close> for
  \<^verbatim>\<open>StopIteration\<close>) and the lines not yet consumed.
\<close>

fun reader_loop ::
  "reader_obj \<Rightarrow> string list \<Rightarrow> csv_error + (string list option \<times> string list)" where
  "reader_loop r [] =
     (if rfield r \<noteq> [] \<or> rstate r = IN_QUOTED_FIELD
      then Inr (Some (rfields (parse_save_field r)), [])
      else Inr (None, []))"
| "reader_loop r (l # ls) =
     (case feed_line r l of
        Inl e \<Rightarrow> Inl e
      | Inr r1 \<Rightarrow>
          (case parse_process_char r1 None of
             Inl e \<Rightarrow> Inl e
           | Inr r2 \<Rightarrow>
               if rstate r2 = START_RECORD then Inr (Some (rfields r2), ls)
               else reader_loop r2 ls))"

definition parse_reset :: reader_obj where
  "parse_reset = \<lparr>rstate = START_RECORD, rfields = [], rfield = []\<rparr>"

definition Reader_iternext ::
  "string list \<Rightarrow> csv_error + (string list option \<times> string list)" where
  "Reader_iternext ls = reader_loop parse_reset ls"

lemma reader_loop_rest:
  "reader_loop r ls = Inr (Some row, rest) \<Longrightarrow> length rest \<le> length ls"
proof (induction r ls rule: reader_loop.induct)
  case (1 r)
  then show ?case by (simp split: if_splits)
next
  case (2 r l ls)
  from "2.prems" obtain r1 r2 where
    r1: "feed_line r l = Inr r1" and r2: "parse_process_char r1 None = Inr r2"
    by (auto split: sum.splits)
  show ?case
  proof (cases "rstate r2 = START_RECORD")
    case True
    with "2.prems" r1 r2 show ?thesis by simp
  next
    case False
    with "2.prems" r1 r2 have "reader_loop r2 ls = Inr (Some row, rest)" by simp
    with "2.IH" [OF r1 r2 False] show ?thesis by simp
  qed
qed

lemma Reader_iternext_shorter:
  "Reader_iternext ls = Inr (Some row, rest) \<Longrightarrow> length rest < length ls"
  by (cases ls)
     (auto simp: Reader_iternext_def parse_reset_def le_imp_less_Suc
           split: if_splits sum.splits dest: reader_loop_rest)

text \<open>\<^verbatim>\<open>list(csv.reader(lines))\<close>\<close>

function list_reader :: "string list \<Rightarrow> csv_error + string list list" where
  "list_reader ls =
     (case Reader_iternext ls of
        Inl e \<Rightarrow> Inl e
      | Inr (None, rest) \<Rightarrow> Inr []
      | Inr (Some row, rest) \<Rightarrow>
          (case list_reader rest of
             Inl e \<Rightarrow> Inl e
           | Inr rows \<Rightarrow> Inr (row # rows)))"
  by pat_completeness auto
termination
  by (relation "measure length") (auto dest: Reader_iternext_shorter)

declare list_reader.simps [simp del]

text \<open>
  The writer: a field is quoted when it holds the delimiter, the quote character or a
  character of the line terminator; a quote character inside is doubled. \<open>n\<close> counts
  the fields already joined into the record.
\<close>

definition want_quote :: "char \<Rightarrow> bool" where
  "want_quote c \<longleftrightarrow> c = DELIM \<or> c = QUOTE \<or> c = CR \<or> c = LF"

fun join_append_data :: "string \<Rightarrow> string" where
  "join_append_data [] = []"
| "join_append_data (c # cs) =
     (if c = QUOTE then QUOTE # QUOTE # join_append_data cs else c # join_append_data cs)"

definition join_append :: "string \<Rightarrow> bool \<Rightarrow> string" where
  "join_append f quoted =
     (if quoted \<or> (\<exists>c \<in> set f. want_quote c)
      then QUOTE # join_append_data f @ [QUOTE]
      else join_append_data f)"

fun join_fields :: "nat \<Rightarrow> string list \<Rightarrow> string" where
  "join_fields n [] = []"
| "join_fields n (f # fs) =
     (if n > 0 then [DELIM] else []) @ join_append f False @ join_fields (Suc n) fs"

definition csv_writerow :: "string list \<Rightarrow> string" where
  "csv_writerow row =
     (let rec = join_fields 0 row
      in (if length row > 0 \<and> rec = [] then join_append [] True else rec) @ [CR, LF])"

definition csv_writerows :: "string list list \<Rightarrow> string" where
  "csv_writerows rows = concat (map csv_writerow rows)"

section \<open>Files and exceptions\<close>

text \<open>
  A file holds text, unless opening or decoding it for reading fails (\<open>data = None\<close>),
  and may or may not be opened for writing. A file system maps paths to files.
\<close>

datatype py_error = OSError | CsvError csv_error | AttributeError | ValueError

type_synonym path = string

record file_obj =
  data :: "string option"
  writable :: bool

type_synonym fs = "path \<Rightarrow> file_obj"

definition open_read :: "fs \<Rightarrow> path \<Rightarrow> py_error + string" where
  "open_read files p = (case data (files p) of None \<Rightarrow> Inl OSError | Some s \<Rightarrow> Inr s)"

definition write_file :: "fs \<Rightarrow> path \<Rightarrow> string \<Rightarrow> fs" where
  "write_file files p s = files(p := (files p)\<lparr>data := Some s\<rparr>)"

text \<open>What the two scripts print, one constructor for each \<^verbatim>\<open>print\<close> call.\<close>

datatype message =
    Processing path
  | FileIsEmpty
  | NoMilestoneTextColumn
  | FoundAtIndex nat
  | SuccessfullyMigrated nat
  | NewHeader string
  | ErrorProcessing py_error
  | StartingRemove
  | DataDirNotFound path
  | NoCsvFilesFound path
  | FoundFiles nat
  | BlankLine
  | Separator
  | MigrationComplete nat nat
  | NoCsvMatching path
  | FoundOtherCsv "path list"
  | FoundToProcess nat "path list"
  | ProcessingFile path
  | NoDataSkipping path
  | LeadingEmptyLines nat path
  | NoHeaderFound path
  | AlreadyCompleted path
  | NoDataRows path
  | Processed nat nat path
  | SuccessfullyMigratedSessions nat path
  | ErrorProcessingFile path py_error
  | ProcessingCompleteAll
  | Usage
  | UsageExample
  | NotValidDirectory path
  | StartingMigration path
  | OverallFinished

section \<open>Removing the column: \<^verbatim>\<open>migrate_remove_milestone_text.py\<close>\<close>

text \<open>\<^verbatim>\<open>header.index(x)\<close>: the first position of \<open>x\<close>, \<open>None\<close> for ValueError.\<close>

fun list_index :: "'a list \<Rightarrow> 'a \<Rightarrow> nat option" where
  "list_index [] x = None"
| "list_index (y # ys) x = (if y = x then Some 0 else map_option Suc (list_index ys x))"

text \<open>\<^verbatim>\<open>row[:idx] + row[idx+1:]\<close>\<close>

definition without_index :: "nat \<Rightarrow> 'a list \<Rightarrow> 'a list" where
  "without_index idx row = take idx row @ drop (idx + 1) row"

text \<open>The body of the loop over \<^verbatim>\<open>rows[1:]\<close>.\<close>

definition new_row :: "nat \<Rightarrow> string list \<Rightarrow> string list" where
  "new_row milestone_text_idx row =
     (if length row > milestone_text_idx then without_index milestone_text_idx row else row)"

fun str_join :: "string \<Rightarrow> string list \<Rightarrow> string" where
  "str_join sep [] = []"
| "str_join sep [x] = x"
| "str_join sep (x # y # ys) = x @ sep @ str_join sep (y # ys)"

text \<open>
  \<^verbatim>\<open>migrate_csv_file\<close>: the new file system, what was printed after the first line,
  and the returned flag. Every exception inside the \<^verbatim>\<open>try\<close> block ends in
  the handler, which prints and returns \<open>False\<close>.
\<close>

definition migrate_csv_file :: "fs \<Rightarrow> path \<Rightarrow> fs \<times> message list \<times> bool" where
  "migrate_csv_file files file_path =
     (case open_read files file_path of
        Inl e \<Rightarrow> (files, [Processing file_path, ErrorProcessing e], False)
      | Inr s \<Rightarrow>
        (case list_reader (readlines_translated s) of
           Inl e \<Rightarrow> (files, [Processing file_path, ErrorProcessing (CsvError e)], False)
         | Inr [] \<Rightarrow> (files, [Processing file_path, FileIsEmpty], False)
         | Inr (header # data_rows) \<Rightarrow>
             if ''milestone_text'' \<notin> set header
             then (files, [Processing file_path, NoMilestoneTextColumn], False)
             else
               (case list_index header ''milestone_text'' of
                  None \<Rightarrow> (files, [Processing file_path, ErrorProcessing ValueError], False)
                | Some milestone_text_idx \<Rightarrow>
                    let new_header = without_index milestone_text_idx header;
                        new_rows = new_header # map (new_row milestone_text_idx) data_rows
                    in if \<not> writable (files file_path)
                       then (files,
                             [Processing file_path, FoundAtIndex milestone_text_idx,
                              ErrorProcessing OSError], False)
                       else (write_file files file_path (csv_writerows new_rows),
                             [Processing file_path, FoundAtIndex milestone_text_idx,
                              SuccessfullyMigrated (length new_rows - 1),
                              NewHeader (str_join '','' new_header)], True))))"

text \<open>
  \<^verbatim>\<open>main\<close>: what the environment answers (does the directory exist, what the glob
  finds) is an argument. The script never calls \<^verbatim>\<open>sys.exit\<close>, so its exit
  status is 0 on every path.
\<close>

record world =
  files :: fs
  path_exists :: "path \<Rightarrow> bool"
  path_isdir :: "path \<Rightarrow> bool"
  glob :: "path \<Rightarrow> string \<Rightarrow> path list"
  expanduser :: "string \<Rightarrow> string"

fun migrate_all :: "fs \<Rightarrow> path list \<Rightarrow> nat \<Rightarrow> fs \<times> message list \<times> nat" where
  "migrate_all fls [] successful = (fls, [], successful)"
| "migrate_all fls (csv_file # rest) successful =
     (let (fls1, msgs1, ok) = migrate_csv_file fls csv_file;
          (fls2, msgs2, n) = migrate_all fls1 rest (if ok then successful + 1 else successful)
      in (fls2, msgs1 @ [BlankLine] @ msgs2, n))"

definition main :: "world \<Rightarrow> path \<Rightarrow> nat \<times> message list \<times> fs" where
  "main w JUJU_DATA_DIR =
     (if \<not> path_exists w JUJU_DATA_DIR
      then (0, [StartingRemove, DataDirNotFound JUJU_DATA_DIR], files w)
      else
        let csv_files = glob w JUJU_DATA_DIR ''*-data.csv''
        in if csv_files = []
           then (0, [StartingRemove, NoCsvFilesFound JUJU_DATA_DIR], files w)
           else
             let (fls, msgs, successful) = migrate_all (files w) (sort csv_files) 0
             in (0,
                 [StartingRemove, FoundFiles (length csv_files)] @ msgs @
                 [Separator, MigrationComplete successful (length csv_files), Separator],
                 fls))"

section \<open>Adding the columns: \<^verbatim>\<open>migrate_sessions.py\<close>\<close>

text \<open>
  \<^verbatim>\<open>clean_csv_file_content\<close>, applied to the text of the file: the loop looks for
  the first line that \<^verbatim>\<open>strip\<close> leaves non-empty.
\<close>

fun first_nonblank :: "nat \<Rightarrow> string list \<Rightarrow> nat option" where
  "first_nonblank i [] = None"
| "first_nonblank i (line # lines) =
     (if strip line \<noteq> [] then Some i else first_nonblank (Suc i) lines)"

definition clean_csv_file_content :: "string \<Rightarrow> string list \<times> nat" where
  "clean_csv_file_content s =
     (let lines = readlines s
      in case first_nonblank 0 lines of
           None \<Rightarrow> ([], length lines)
         | Some leading_empty_lines \<Rightarrow> (drop leading_empty_lines lines, leading_empty_lines))"

text \<open>
  A Python dict keeps its keys in insertion order; assigning to a key that is present
  replaces the value in place.
\<close>

fun dict_set :: "('k \<times> 'v) list \<Rightarrow> 'k \<Rightarrow> 'v \<Rightarrow> ('k \<times> 'v) list" where
  "dict_set [] k v = [(k, v)]"
| "dict_set ((k', v') # d) k v =
     (if k' = k then (k, v) # d else (k', v') # dict_set d k v)"

text \<open>
  A row of \<^verbatim>\<open>csv.DictReader\<close>: the entries under the field names (a value is a
  string, or \<open>None\<close>, the \<^verbatim>\<open>restval\<close> of a short row), and for a row longer
  than the field names the entry under the key \<^verbatim>\<open>None\<close> (the
  \<^verbatim>\<open>restkey\<close>), which holds the surplus fields and is inserted last.
\<close>

record rowdict =
  named :: "(string \<times> string option) list"
  restkey :: "string list option"

definition DictReader_row :: "string list \<Rightarrow> string list \<Rightarrow> rowdict" where
  "DictReader_row fieldnames row =
     (let d = foldl (\<lambda>d (k, v). dict_set d k (Some v)) [] (zip fieldnames row);
          lf = length fieldnames;
          lr = length row
      in if lf < lr then \<lparr>named = d, restkey = Some (drop lf row)\<rparr>
         else if lf > lr
         then \<lparr>named = foldl (\<lambda>d key. dict_set d key None) d (drop lr fieldnames),
               restkey = None\<rparr>
         else \<lparr>named = d, restkey = None\<rparr>)"

text \<open>
  \<^verbatim>\<open>list(csv.DictReader(f, fieldnames=...))\<close>: with the field names given, the
  first record is a data row like any other; empty records are skipped.
\<close>

function list_DictReader :: "string list \<Rightarrow> string list \<Rightarrow> csv_error + rowdict list" where
  "list_DictReader fieldnames ls =
     (case Reader_iternext ls of
        Inl e \<Rightarrow> Inl e
      | Inr (None, rest) \<Rightarrow> Inr []
      | Inr (Some row, rest) \<Rightarrow>
          (case list_DictReader fieldnames rest of
             Inl e \<Rightarrow> Inl e
           | Inr ds \<Rightarrow> Inr (if row = [] then ds else DictReader_row fieldnames row # ds)))"
  by pat_completeness auto
termination
  by (relation "measure (\<lambda>(fieldnames, ls). length ls)") (auto dest: Reader_iternext_shorter)

declare list_DictReader.simps [simp del]

text \<open>
  The search for the key that is \<^verbatim>\<open>milestone_text\<close> in lower case runs over the
  keys in order and stops at the first match. The key \<^verbatim>\<open>None\<close> comes last, and
  \<^verbatim>\<open>None.lower()\<close> raises AttributeError.
\<close>

fun find_milestone_text :: "(string \<times> string option) list \<Rightarrow> string option option" where
  "find_milestone_text [] = None"
| "find_milestone_text ((key, v) # d) =
     (if lower key = ''milestone_text'' then Some v else find_milestone_text d)"

definition set_new_columns :: "rowdict \<Rightarrow> string option \<Rightarrow> rowdict" where
  "set_new_columns row milestone_text =
     (if (case milestone_text of None \<Rightarrow> False | Some t \<Rightarrow> t \<noteq> [] \<and> strip t \<noteq> [])
      then row\<lparr>named :=
             dict_set (dict_set (named row) ''action'' (Some (strip (the milestone_text))))
               ''is_milestone'' (Some ''1'')\<rparr>
      else row\<lparr>named :=
             dict_set (dict_set (named row) ''action'' (Some [])) ''is_milestone'' (Some ''0'')\<rparr>)"

definition migrate_row :: "rowdict \<Rightarrow> py_error + rowdict" where
  "migrate_row row =
     (case find_milestone_text (named row) of
        Some v \<Rightarrow> Inr (set_new_columns row v)
      | None \<Rightarrow>
          (case restkey row of
             Some surplus \<Rightarrow> Inl AttributeError
           | None \<Rightarrow> Inr (set_new_columns row None)))"

text \<open>The loop over \<^verbatim>\<open>rows_to_process\<close>, with its progress line every 100 rows.\<close>

fun migrate_rows ::
  "path \<Rightarrow> nat \<Rightarrow> nat \<Rightarrow> rowdict list \<Rightarrow> message list \<times> (py_error + rowdict list)" where
  "migrate_rows name n_rows row_idx [] = ([], Inr [])"
| "migrate_rows name n_rows row_idx (row # rows) =
     (case migrate_row row of
        Inl e \<Rightarrow> ([], Inl e)
      | Inr new_row' \<Rightarrow>
          (let progress =
                 (if (row_idx + 1) mod 100 = 0 then [Processed (row_idx + 1) n_rows name] else []);
               (msgs, res) = migrate_rows name n_rows (row_idx + 1) rows
           in (progress @ msgs,
               case res of Inl e \<Rightarrow> Inl e | Inr new_rows \<Rightarrow> Inr (new_row' # new_rows))))"

text \<open>
  \<^verbatim>\<open>csv.DictWriter\<close>: a row with a key outside the field names raises ValueError;
  a missing key is written as the empty string, and so is the value \<^verbatim>\<open>None\<close>.
  \<^verbatim>\<open>writerows\<close> converts the rows one at a time, so the rows before a failing
  one are already written.
\<close>

definition dict_values :: "string list \<Rightarrow> rowdict \<Rightarrow> string option list" where
  "dict_values fieldnames d =
     map (\<lambda>key. case map_of (named d) key of None \<Rightarrow> Some [] | Some v \<Rightarrow> v) fieldnames"

definition dict_to_list :: "string list \<Rightarrow> rowdict \<Rightarrow> py_error + string option list" where
  "dict_to_list fieldnames d =
     (if restkey d \<noteq> None \<or> (\<exists>k \<in> set (map fst (named d)). k \<notin> set fieldnames)
      then Inl ValueError
      else Inr (dict_values fieldnames d))"

definition field_text :: "string option \<Rightarrow> string" where
  "field_text v = (case v of None \<Rightarrow> [] | Some t \<Rightarrow> t)"

definition DictWriter_writerow :: "string list \<Rightarrow> rowdict \<Rightarrow> py_error + string" where
  "DictWriter_writerow fieldnames d =
     (case dict_to_list fieldnames d of
        Inl e \<Rightarrow> Inl e
      | Inr l \<Rightarrow> Inr (csv_writerow (map field_text l)))"

definition DictWriter_writeheader :: "string list \<Rightarrow> py_error + string" where
  "DictWriter_writeheader fieldnames =
     DictWriter_writerow fieldnames
       \<lparr>named = foldl (\<lambda>d (k, v). dict_set d k (Some v)) [] (zip fieldnames fieldnames),
        restkey = None\<rparr>"

fun DictWriter_writerows :: "string list \<Rightarrow> rowdict list \<Rightarrow> string \<times> py_error option" where
  "DictWriter_writerows fieldnames [] = ([], None)"
| "DictWriter_writerows fieldnames (d # ds) =
     (case DictWriter_writerow fieldnames d of
        Inl e \<Rightarrow> ([], Some e)
      | Inr line \<Rightarrow>
          (let (text, err) = DictWriter_writerows fieldnames ds in (line @ text, err)))"

text \<open>
  What one pass of the loop in \<^verbatim>\<open>migrate_sessions\<close> decides from the text \<open>s\<close>
  of the file (read at lines 13 and 90): to go on to the next file, to end in the
  handler, or to open the file for writing. \<open>WriteFile text err n\<close> carries the text
  that reaches the truncated file, the exception raised while writing (if any) and the
  number of migrated rows. \<open>migrate_cleaned\<close> is steps 2 to 4 of the loop body, from
  the cleaned lines (for the header) and the lines left in the reopened file after the
  leading empty ones are skipped (for the DictReader).
\<close>

datatype action = Continue | Raise py_error | WriteFile string "py_error option" nat

definition migrate_cleaned ::
  "path \<Rightarrow> string list \<Rightarrow> string list \<Rightarrow> message list \<times> action" where
  "migrate_cleaned name cleaned_lines remaining_lines =
     (case Reader_iternext cleaned_lines of
        Inl e \<Rightarrow> ([], Raise (CsvError e))
      | Inr (None, rest) \<Rightarrow> ([NoHeaderFound name], Continue)
      | Inr (Some original_header_row, rest) \<Rightarrow>
          if ''action'' \<in> set original_header_row \<and>
             ''is_milestone'' \<in> set original_header_row
          then ([AlreadyCompleted name], Continue)
          else
            let updated_fieldnames = original_header_row @ [''action'', ''is_milestone'']
            in case list_DictReader original_header_row remaining_lines of
                 Inl e \<Rightarrow> ([], Raise (CsvError e))
               | Inr rows_to_process \<Rightarrow>
                   if rows_to_process = [] then ([NoDataRows name], Continue)
                   else
                     (case migrate_rows name (length rows_to_process) 0 rows_to_process of
                        (msgs2, Inl e) \<Rightarrow> (msgs2, Raise e)
                      | (msgs2, Inr migrated_rows) \<Rightarrow>
                          (case DictWriter_writeheader updated_fieldnames of
                             Inl e \<Rightarrow> (msgs2, WriteFile [] (Some e) (length migrated_rows))
                           | Inr head \<Rightarrow>
                               (case DictWriter_writerows updated_fieldnames migrated_rows of
                                  (text, err) \<Rightarrow>
                                    (msgs2,
                                     WriteFile (head @ text) err (length migrated_rows))))))"

definition migrate_sessions_content :: "path \<Rightarrow> string \<Rightarrow> message list \<times> action" where
  "migrate_sessions_content name s =
     (let (cleaned_lines, leading_empty_lines) = clean_csv_file_content s
      in if cleaned_lines = [] then ([NoDataSkipping name], Continue)
         else
           let msgs1 = (if leading_empty_lines > 0
                        then [LeadingEmptyLines leading_empty_lines name] else []);
               (msgs, act) =
                 migrate_cleaned name cleaned_lines
                   (drop leading_empty_lines (readlines s))
           in (msgs1 @ msgs, act))"

definition migrate_sessions_file :: "fs \<Rightarrow> path \<Rightarrow> fs \<times> message list" where
  "migrate_sessions_file fls csv_file =
     (case open_read fls csv_file of
        Inl e \<Rightarrow> (fls, [ProcessingFile csv_file, ErrorProcessingFile csv_file e])
      | Inr s \<Rightarrow>
          (case migrate_sessions_content csv_file s of
             (msgs, Continue) \<Rightarrow> (fls, ProcessingFile csv_file # msgs)
           | (msgs, Raise e) \<Rightarrow>
               (fls, ProcessingFile csv_file # msgs @ [ErrorProcessingFile csv_file e])
           | (msgs, WriteFile text err n) \<Rightarrow>
               if \<not> writable (fls csv_file)
               then (fls, ProcessingFile csv_file # msgs @ [ErrorProcessingFile csv_file OSError])
               else (write_file fls csv_file text,
                     ProcessingFile csv_file # msgs @
                     [case err of
                        None \<Rightarrow> SuccessfullyMigratedSessions n csv_file
                      | Some e \<Rightarrow> ErrorProcessingFile csv_file e])))"

fun migrate_sessions_loop :: "fs \<Rightarrow> path list \<Rightarrow> fs \<times> message list" where
  "migrate_sessions_loop fls [] = (fls, [])"
| "migrate_sessions_loop fls (csv_file # rest) =
     (let (fls1, msgs1) = migrate_sessions_file fls csv_file;
          (fls2, msgs2) = migrate_sessions_loop fls1 rest
      in (fls2, msgs1 @ msgs2))"

definition migrate_sessions :: "world \<Rightarrow> path \<Rightarrow> fs \<times> message list" where
  "migrate_sessions w data_path =
     (let csv_files = glob w data_path ''*-data.csv''
      in if csv_files = [] then
           (let all_csv_files = glob w data_path ''*.csv''
            in (files w,
                NoCsvMatching data_path #
                (if all_csv_files \<noteq> [] then [FoundOtherCsv all_csv_files] else [])))
         else
           (let (fls, msgs) = migrate_sessions_loop (files w) csv_files
            in (fls, FoundToProcess (length csv_files) csv_files # msgs @ [ProcessingCompleteAll])))"

text \<open>
  The \<^verbatim>\<open>__main__\<close> block: \<open>argv\<close> is \<^verbatim>\<open>sys.argv\<close>; the first component of
  the result is the exit status.
\<close>

definition migrate_sessions_main :: "world \<Rightarrow> string list \<Rightarrow> nat \<times> message list \<times> fs" where
  "migrate_sessions_main w argv =
     (if length argv \<noteq> 2 then (1, [Usage, UsageExample], files w)
      else
        let arg = argv ! 1;
            data_path_str = (if take 1 arg = ''~'' then expanduser w arg else arg)
        in if \<not> path_isdir w data_path_str
           then (1, [NotValidDirectory data_path_str], files w)
           else
             let (fls, msgs) = migrate_sessions w data_path_str
             in (0, StartingMigration data_path_str # msgs @ [OverallFinished], fls))"

section \<open>The reader on a stream of characters\<close>

text \<open>
  For the proofs the reader is run on the text itself instead of on its lines:
  \<open>stream_loop r b s\<close> continues in state \<open>r\<close> on the text \<open>s\<close>, where \<open>b\<close>
  tells whether the current line has characters already. It feeds the end-of-line mark
  where \<open>splitlines\<close> ends a line.
\<close>

definition eol_step ::
  "reader_obj \<Rightarrow> string list \<Rightarrow> (reader_obj \<Rightarrow> csv_error + (string list option \<times> string list))
   \<Rightarrow> csv_error + (string list option \<times> string list)" where
  "eol_step r rest k =
     (case parse_process_char r None of
        Inl e \<Rightarrow> Inl e
      | Inr r2 \<Rightarrow> if rstate r2 = START_RECORD then Inr (Some (rfields r2), rest) else k r2)"

fun stream_loop ::
  "reader_obj \<Rightarrow> bool \<Rightarrow> string \<Rightarrow> csv_error + (string list option \<times> string list)" where
  "stream_loop r b [] = (if b then eol_step r [] (\<lambda>r2. reader_loop r2 []) else reader_loop r [])"
| "stream_loop r b (c # cs) =
     (case parse_process_char r (Some c) of
        Inl e \<Rightarrow> Inl e
      | Inr r1 \<Rightarrow>
          if c = LF then eol_step r1 (splitlines [] cs) (\<lambda>r2. stream_loop r2 False cs)
          else if c = CR then
            (case cs of
               [] \<Rightarrow> eol_step r1 [] (\<lambda>r2. stream_loop r2 False [])
             | d # ds \<Rightarrow>
                 if d = LF then
                   (case parse_process_char r1 (Some LF) of
                      Inl e \<Rightarrow> Inl e
                    | Inr r1' \<Rightarrow> eol_step r1' (splitlines [] ds) (\<lambda>r2. stream_loop r2 False ds))
                 else eol_step r1 (splitlines [] cs) (\<lambda>r2. stream_loop r2 False cs))
          else stream_loop r1 True cs)"

lemma feed_line_append:
  "feed_line r (xs @ ys) = (case feed_line r xs of Inl e \<Rightarrow> Inl e | Inr r' \<Rightarrow> feed_line r' ys)"
  by (induction xs arbitrary: r) (auto split: sum.splits)

lemma reader_loop_line:
  "reader_loop r (l # ls) =
     (case feed_line r l of
        Inl e \<Rightarrow> Inl e
      | Inr r1 \<Rightarrow> eol_step r1 ls (\<lambda>r2. reader_loop r2 ls))"
  by (simp add: eol_step_def split: sum.splits)

lemma splitlines_LF: "splitlines cur (LF # cs) = (cur @ [LF]) # splitlines [] cs"
  by simp

lemma splitlines_CRLF: "splitlines cur (CR # LF # ds) = (cur @ [CR, LF]) # splitlines [] ds"
  by simp

lemma splitlines_CR:
  "cs = [] \<or> hd cs \<noteq> LF \<Longrightarrow> splitlines cur (CR # cs) = (cur @ [CR]) # splitlines [] cs"
  by (cases cs) auto

lemma splitlines_other:
  "c \<noteq> LF \<Longrightarrow> c \<noteq> CR \<Longrightarrow> splitlines cur (c # cs) = splitlines (cur @ [c]) cs"
  by simp

lemma stream_loop_LF:
  "stream_loop r b (LF # cs) =
     (case parse_process_char r (Some LF) of
        Inl e \<Rightarrow> Inl e
      | Inr r1 \<Rightarrow> eol_step r1 (splitlines [] cs) (\<lambda>r2. stream_loop r2 False cs))"
  by (simp split: sum.splits)

lemma stream_loop_CRLF:
  "stream_loop r b (CR # LF # ds) =
     (case parse_process_char r (Some CR) of
        Inl e \<Rightarrow> Inl e
      | Inr r1 \<Rightarrow>
          (case parse_process_char r1 (Some LF) of
             Inl e \<Rightarrow> Inl e
           | Inr r1' \<Rightarrow> eol_step r1' (splitlines [] ds) (\<lambda>r2. stream_loop r2 False ds)))"
  by (simp split: sum.splits)

lemma stream_loop_CR:
  "cs = [] \<or> hd cs \<noteq> LF \<Longrightarrow>
   stream_loop r b (CR # cs) =
     (case parse_process_char r (Some CR) of
        Inl e \<Rightarrow> Inl e
      | Inr r1 \<Rightarrow> eol_step r1 (splitlines [] cs) (\<lambda>r2. stream_loop r2 False cs))"
  by (cases cs) (auto split: sum.splits)

lemma stream_loop_other:
  "c \<noteq> LF \<Longrightarrow> c \<noteq> CR \<Longrightarrow>
   stream_loop r b (c # cs) =
     (case parse_process_char r (Some c) of
        Inl e \<Rightarrow> Inl e
      | Inr r1 \<Rightarrow> stream_loop r1 True cs)"
  by (simp split: sum.splits)

declare splitlines.simps(2) [simp del] stream_loop.simps(2) [simp del]

lemma reader_loop_stream:
  "reader_loop r0 (splitlines cur s) =
     (case feed_line r0 cur of
        Inl e \<Rightarrow> Inl e
      | Inr r \<Rightarrow> stream_loop r (cur \<noteq> []) s)"
proof (induction cur s arbitrary: r0 rule: splitlines.induct)
  case (1 cur)
  show ?case
    by (cases "cur = []") (simp_all add: eol_step_def split: sum.splits)
next
  case (2 cur c cs)
  show ?case
  proof (cases "c = LF")
    case True
    show ?thesis
      unfolding True splitlines_LF stream_loop_LF reader_loop_line feed_line_append
      using "2.IH"(1) [OF True]
      by (simp add: eol_step_def split: sum.splits)
  next
    case notLF: False
    show ?thesis
    proof (cases "c = CR")
      case True
      show ?thesis
      proof (cases cs)
        case Nil
        then have h: "cs = [] \<or> hd cs \<noteq> LF" by simp
        show ?thesis
          unfolding True splitlines_CR [OF h] stream_loop_CR [OF h] reader_loop_line
            feed_line_append
          using Nil by (simp add: eol_step_def split: sum.splits)
      next
        case (Cons d ds)
        show ?thesis
        proof (cases "d = LF")
          case dLF: True
          show ?thesis
            unfolding True Cons dLF splitlines_CRLF stream_loop_CRLF reader_loop_line
              feed_line_append
            using "2.IH"(2) [OF notLF True Cons dLF]
            by (simp add: eol_step_def split: sum.splits)
        next
          case dnLF: False
          with Cons have h: "cs = [] \<or> hd cs \<noteq> LF" by simp
          show ?thesis
            unfolding True splitlines_CR [OF h] stream_loop_CR [OF h] reader_loop_line
              feed_line_append
            using "2.IH"(3) [OF notLF True Cons dnLF]
            by (simp add: eol_step_def split: sum.splits)
        qed
      qed
    next
      case False
      show ?thesis
        unfolding splitlines_other [OF notLF False] stream_loop_other [OF notLF False]
        using "2.IH"(4) [OF notLF False]
        by (simp add: feed_line_append split: sum.splits)
    qed
  qed
qed

section \<open>Reading back what the writer wrote\<close>

lemma reader_upd_comm [simp]:
  "r\<lparr>rfield := x, rstate := s\<rparr> = r\<lparr>rstate := s, rfield := x\<rparr>"
  "r\<lparr>rfields := y, rstate := s\<rparr> = r\<lparr>rstate := s, rfields := y\<rparr>"
  "r\<lparr>rfield := x, rfields := y\<rparr> = r\<lparr>rfields := y, rfield := x\<rparr>"
  by (cases r; simp)+

lemma limit_pos: "0 < field_size_limit" by (simp add: field_size_limit_def)

lemma stream_quoted_CR:
  assumes "rstate r = IN_QUOTED_FIELD"
  shows "stream_loop r b (CR # cs) =
     (case parse_add_char r CR of
        Inl e \<Rightarrow> Inl e
      | Inr r1 \<Rightarrow> stream_loop r1 False cs)"
proof (cases "cs = [] \<or> hd cs \<noteq> LF")
  case True
  show ?thesis
    unfolding stream_loop_CR [OF True]
    using assms
    by (auto simp: parse_process_char_def parse_add_char_def eol_step_def split: sum.splits)
next
  case False
  then obtain ds where cs: "cs = LF # ds" by (cases cs) auto
  show ?thesis
    unfolding cs stream_loop_CRLF stream_loop_LF
    using assms
    by (auto simp: parse_process_char_def parse_add_char_def eol_step_def split: sum.splits)
qed

lemma stream_quoted_char:
  assumes "rstate r = IN_QUOTED_FIELD" "c \<noteq> QUOTE"
  shows "stream_loop r b (c # cs) =
     (case parse_add_char r c of
        Inl e \<Rightarrow> Inl e
      | Inr r1 \<Rightarrow> stream_loop r1 (c \<noteq> LF \<and> c \<noteq> CR) cs)"
proof (cases "c = CR")
  case True
  then show ?thesis
    using stream_quoted_CR [OF assms(1), of b cs] by (simp split: sum.splits)
next
  case nCR: False
  show ?thesis
  proof (cases "c = LF")
    case True
    show ?thesis
      unfolding True stream_loop_LF
      using assms(1)
      by (auto simp: parse_process_char_def parse_add_char_def eol_step_def split: sum.splits)
  next
    case False
    show ?thesis
      unfolding stream_loop_other [OF False nCR]
      using assms False nCR
      by (auto simp: parse_process_char_def parse_add_char_def split: sum.splits)
  qed
qed

lemma stream_quoted_body:
  assumes "rstate r = IN_QUOTED_FIELD" "length (rfield r) + length f \<le> field_size_limit"
  shows "stream_loop r b (join_append_data f @ QUOTE # t) =
         stream_loop (r\<lparr>rstate := QUOTE_IN_QUOTED_FIELD, rfield := rfield r @ f\<rparr>) True t"
  using assms
proof (induction f arbitrary: r b)
  case Nil
  then show ?case
    by (simp add: stream_loop_other parse_process_char_def)
next
  case (Cons c f)
  show ?case
  proof (cases "c = QUOTE")
    case True
    let ?r' = "r\<lparr>rfield := rfield r @ [QUOTE], rstate := IN_QUOTED_FIELD\<rparr>"
    have "stream_loop r b (join_append_data (c # f) @ QUOTE # t) =
          stream_loop ?r' True (join_append_data f @ QUOTE # t)"
      using Cons.prems True
      by (simp add: stream_loop_other parse_process_char_def parse_add_char_def)
    also have "\<dots> = stream_loop (?r'\<lparr>rstate := QUOTE_IN_QUOTED_FIELD, rfield := rfield ?r' @ f\<rparr>) True t"
      using Cons.prems by (intro Cons.IH) simp_all
    finally show ?thesis using True by simp
  next
    case False
    let ?r' = "r\<lparr>rfield := rfield r @ [c]\<rparr>"
    have "stream_loop r b (join_append_data (c # f) @ QUOTE # t) =
          stream_loop ?r' (c \<noteq> LF \<and> c \<noteq> CR) (join_append_data f @ QUOTE # t)"
      using Cons.prems False
      by (simp add: stream_quoted_char parse_add_char_def)
    also have "\<dots> = stream_loop (?r'\<lparr>rstate := QUOTE_IN_QUOTED_FIELD, rfield := rfield ?r' @ f\<rparr>) True t"
      using Cons.prems by (intro Cons.IH) simp_all
    finally show ?thesis by simp
  qed
qed

lemma join_append_data_plain: "QUOTE \<notin> set f \<Longrightarrow> join_append_data f = f"
  by (induction f) auto

lemma join_append_data_Nil [simp]: "join_append_data f = [] \<longleftrightarrow> f = []"
  by (cases f) auto

lemma stream_unquoted_body:
  assumes "rstate r = IN_FIELD" "\<forall>c \<in> set f. \<not> want_quote c"
    "length (rfield r) + length f \<le> field_size_limit"
  shows "stream_loop r b (f @ t) = stream_loop (r\<lparr>rfield := rfield r @ f\<rparr>) (b \<or> f \<noteq> []) t"
  using assms
proof (induction f arbitrary: r b)
  case Nil
  then show ?case by simp
next
  case (Cons c f)
  let ?r' = "r\<lparr>rfield := rfield r @ [c]\<rparr>"
  from Cons.prems have c: "c \<noteq> LF" "c \<noteq> CR" "c \<noteq> DELIM" "c \<noteq> QUOTE"
    by (auto simp: want_quote_def)
  have "stream_loop r b ((c # f) @ t) = stream_loop ?r' True (f @ t)"
    using Cons.prems c
    by (simp add: stream_loop_other parse_process_char_def parse_add_char_def is_newline_def)
  also have "\<dots> = stream_loop (?r'\<lparr>rfield := rfield ?r' @ f\<rparr>) (True \<or> f \<noteq> []) t"
    using Cons.prems by (intro Cons.IH) simp_all
  finally show ?case by simp
qed

text \<open>After the text of a field the reader holds the field and is ready for a separator.\<close>

definition field_read :: "reader_obj \<Rightarrow> string \<Rightarrow> reader_obj \<Rightarrow> bool" where
  "field_read r f r' \<longleftrightarrow>
     rfields r' = rfields r \<and> rfield r' = f \<and>
     (rstate r' = QUOTE_IN_QUOTED_FIELD \<or> rstate r' = IN_FIELD \<or> (r' = r \<and> f = []))"

lemma stream_field:
  assumes "rstate r = START_RECORD \<or> rstate r = START_FIELD" "rfield r = []"
    "length f \<le> field_size_limit"
  shows "\<exists>r' b'. (\<forall>t. stream_loop r b (join_append f q @ t) = stream_loop r' b' t) \<and>
           field_read r f r' \<and> (join_append f q \<noteq> [] \<longrightarrow> r' \<noteq> r)"
proof (cases "q \<or> (\<exists>c \<in> set f. want_quote c)")
  case True
  let ?r1 = "r\<lparr>rstate := IN_QUOTED_FIELD\<rparr>"
  let ?r' = "r\<lparr>rstate := QUOTE_IN_QUOTED_FIELD, rfield := f\<rparr>"
  have "stream_loop r b (join_append f q @ t) = stream_loop ?r' True t" for t
  proof -
    have "stream_loop r b (join_append f q @ t) =
          stream_loop ?r1 True (join_append_data f @ QUOTE # t)"
      using True assms(1)
      by (auto simp: join_append_def stream_loop_other parse_process_char_def start_field_def
          is_newline_def)
    also have "\<dots> = stream_loop (?r1\<lparr>rstate := QUOTE_IN_QUOTED_FIELD, rfield := rfield ?r1 @ f\<rparr>) True t"
      using assms by (intro stream_quoted_body) simp_all
    finally show ?thesis using assms(2) by simp
  qed
  moreover have "field_read r f ?r'" by (simp add: field_read_def)
  moreover have "?r' \<noteq> r"
  proof
    assume "?r' = r"
    then have "rstate ?r' = rstate r" by simp
    with assms(1) show False by auto
  qed
  ultimately show ?thesis by blast
next
  case False
  then have plain: "join_append f q = f" "\<forall>c \<in> set f. \<not> want_quote c"
    by (auto simp: join_append_def want_quote_def intro: join_append_data_plain)
  show ?thesis
  proof (cases f)
    case Nil
    have "\<forall>t. stream_loop r b (join_append f q @ t) = stream_loop r b t"
      using Nil plain by simp
    moreover have "field_read r f r" using Nil assms(2) by (simp add: field_read_def)
    moreover have "join_append f q = []" using Nil plain by simp
    ultimately show ?thesis by blast
  next
    case (Cons c g)
    let ?r1 = "r\<lparr>rstate := IN_FIELD, rfield := [c]\<rparr>"
    let ?r' = "r\<lparr>rstate := IN_FIELD, rfield := f\<rparr>"
    from plain Cons have c: "c \<noteq> LF" "c \<noteq> CR" "c \<noteq> DELIM" "c \<noteq> QUOTE"
      by (auto simp: want_quote_def)
    have "stream_loop r b (join_append f q @ t) = stream_loop ?r' True t" for t
    proof -
      have "stream_loop r b (join_append f q @ t) = stream_loop ?r1 True (g @ t)"
        using assms plain c Cons limit_pos
        by (auto simp: stream_loop_other parse_process_char_def start_field_def
            is_newline_def parse_add_char_def)
      also have "\<dots> = stream_loop (?r1\<lparr>rfield := rfield ?r1 @ g\<rparr>) (True \<or> g \<noteq> []) t"
        using assms plain Cons by (intro stream_unquoted_body) simp_all
      finally show ?thesis using Cons by simp
    qed
    moreover have "field_read r f ?r'" by (simp add: field_read_def)
    moreover have "?r' \<noteq> r"
    proof
      assume "?r' = r"
      then have "rfield ?r' = rfield r" by simp
      with assms(2) Cons show False by auto
    qed
    ultimately show ?thesis by blast
  qed
qed


lemma stream_delim:
  assumes "field_read r f r'" "rstate r = START_RECORD \<or> rstate r = START_FIELD" "rfield r = []"
  shows "stream_loop r' b (DELIM # t) =
         stream_loop (r\<lparr>rstate := START_FIELD, rfields := rfields r @ [f], rfield := []\<rparr>) True t"
proof -
  have "parse_process_char r' (Some DELIM) =
        Inr (r\<lparr>rstate := START_FIELD, rfields := rfields r @ [f], rfield := []\<rparr>)"
    using assms
    by (auto simp: field_read_def parse_process_char_def start_field_def is_newline_def
        parse_save_field_def)
  then show ?thesis by (simp add: stream_loop_other)
qed

lemma stream_newline:
  assumes "field_read r f r'" "rstate r = START_FIELD \<or> (rstate r = START_RECORD \<and> r' \<noteq> r)"
    "rfield r = []" "nl = [CR, LF] \<or> nl = [LF]"
  shows "stream_loop r' b (nl @ rest) = Inr (Some (rfields r @ [f]), splitlines [] rest)"
proof -
  let ?r2 = "r\<lparr>rstate := EAT_CRNL, rfields := rfields r @ [f], rfield := []\<rparr>"
  have st: "rstate r' = QUOTE_IN_QUOTED_FIELD \<or> rstate r' = IN_FIELD \<or> rstate r' = START_FIELD"
    using assms(1,2) by (auto simp: field_read_def)
  have nl: "parse_process_char r' (Some c) = Inr ?r2" if "c = CR \<or> c = LF" for c
    using assms(1,3) st that
    by (auto simp: field_read_def parse_process_char_def start_field_def is_newline_def
        parse_save_field_def)
  have eat: "parse_process_char ?r2 (Some LF) = Inr ?r2"
    by (simp add: parse_process_char_def is_newline_def)
  have eol: "eol_step ?r2 ls k = Inr (Some (rfields r @ [f]), ls)" for ls k
    by (simp add: eol_step_def parse_process_char_def is_newline_def)
  from assms(4) show ?thesis
  proof
    assume "nl = [CR, LF]"
    then show ?thesis by (simp add: stream_loop_CRLF nl eat eol)
  next
    assume "nl = [LF]"
    then show ?thesis by (simp add: stream_loop_LF nl eol)
  qed
qed

definition record_text :: "string list \<Rightarrow> string" where
  "record_text row =
     (let rec = join_fields 0 row
      in if length row > 0 \<and> rec = [] then join_append [] True else rec)"

definition write_rows :: "string \<Rightarrow> string list list \<Rightarrow> string" where
  "write_rows nl rows = concat (map (\<lambda>row. record_text row @ nl) rows)"

lemma csv_writerow_text: "csv_writerow row = record_text row @ [CR, LF]"
  by (simp add: csv_writerow_def record_text_def Let_def)

lemma csv_writerows_text: "csv_writerows rows = write_rows [CR, LF] rows"
proof -
  have "csv_writerow = (\<lambda>row. record_text row @ [CR, LF])"
    by (rule ext) (rule csv_writerow_text)
  then show ?thesis by (simp add: csv_writerows_def write_rows_def)
qed

lemma join_append_Nil: "join_append f q = [] \<longleftrightarrow> f = [] \<and> \<not> q"
  by (auto simp: join_append_def)

lemma join_fields_Suc_Nil: "join_fields (Suc n) fs = [] \<longleftrightarrow> fs = []"
  by (cases fs) auto

lemma join_fields_Suc_any: "join_fields (Suc n) fs = join_fields (Suc m) fs"
  by (induction fs arbitrary: n m) auto

lemma record_text_Cons:
  "record_text (f # fs) = join_append f (f = [] \<and> fs = []) @ join_fields (Suc 0) fs"
  by (auto simp: record_text_def join_append_Nil join_fields_Suc_Nil)

lemma stream_fields:
  assumes "rstate r = START_FIELD \<or> (rstate r = START_RECORD \<and> (fs \<noteq> [] \<or> join_append f q \<noteq> []))"
    and "rfield r = []"
    and "length f \<le> field_size_limit"
    and "\<forall>g \<in> set fs. length g \<le> field_size_limit"
    and "nl = [CR, LF] \<or> nl = [LF]"
  shows "stream_loop r b (join_append f q @ join_fields (Suc n) fs @ nl @ rest) =
         Inr (Some (rfields r @ f # fs), splitlines [] rest)"
  using assms
proof (induction fs arbitrary: f q r b n)
  case Nil
  have st: "rstate r = START_RECORD \<or> rstate r = START_FIELD" using Nil.prems(1) by auto
  from stream_field [OF st Nil.prems(2,3), of b q] obtain r' b' where
    run: "\<And>t. stream_loop r b (join_append f q @ t) = stream_loop r' b' t"
    and fr: "field_read r f r'" and ne: "join_append f q \<noteq> [] \<longrightarrow> r' \<noteq> r"
    by blast
  have "rstate r = START_FIELD \<or> (rstate r = START_RECORD \<and> r' \<noteq> r)"
    using Nil.prems(1) ne by auto
  from stream_newline [OF fr this Nil.prems(2,5)] show ?case
    by (simp add: run)
next
  case (Cons g fs)
  have st: "rstate r = START_RECORD \<or> rstate r = START_FIELD" using Cons.prems(1) by auto
  from stream_field [OF st Cons.prems(2,3), of b q] obtain r' b' where
    run: "\<And>t. stream_loop r b (join_append f q @ t) = stream_loop r' b' t"
    and fr: "field_read r f r'"
    by blast
  let ?r2 = "r\<lparr>rstate := START_FIELD, rfields := rfields r @ [f], rfield := []\<rparr>"
  have "stream_loop r b (join_append f q @ join_fields (Suc n) (g # fs) @ nl @ rest) =
        stream_loop r' b' (DELIM # join_append g False @ join_fields (Suc (Suc n)) fs @ nl @ rest)"
    by (simp add: run)
  also have "\<dots> = stream_loop ?r2 True (join_append g False @ join_fields (Suc (Suc n)) fs @ nl @ rest)"
    by (rule stream_delim [OF fr st Cons.prems(2)])
  also have "\<dots> = Inr (Some (rfields ?r2 @ g # fs), splitlines [] rest)"
    using Cons.prems by (intro Cons.IH) simp_all
  finally show ?case by simp
qed

lemma stream_empty_row:
  assumes "nl = [CR, LF] \<or> nl = [LF]"
  shows "stream_loop parse_reset b (nl @ rest) = Inr (Some [], splitlines [] rest)"
  using assms
  by (auto simp: stream_loop_CRLF stream_loop_LF parse_reset_def parse_process_char_def
      is_newline_def eol_step_def)

lemma stream_row:
  assumes "\<forall>f \<in> set row. length f \<le> field_size_limit" "nl = [CR, LF] \<or> nl = [LF]"
  shows "stream_loop parse_reset b (record_text row @ nl @ rest) =
         Inr (Some row, splitlines [] rest)"
proof (cases row)
  case Nil
  then show ?thesis using stream_empty_row [OF assms(2)] by (simp add: record_text_def)
next
  case (Cons f fs)
  have "stream_loop parse_reset b
          (join_append f (f = [] \<and> fs = []) @ join_fields (Suc 0) fs @ nl @ rest) =
        Inr (Some (rfields parse_reset @ f # fs), splitlines [] rest)"
    using assms Cons
    by (intro stream_fields) (auto simp: parse_reset_def join_append_Nil)
  then show ?thesis using Cons by (simp add: record_text_Cons parse_reset_def)
qed

lemma Reader_iternext_row:
  assumes "\<forall>f \<in> set row. length f \<le> field_size_limit" "nl = [CR, LF] \<or> nl = [LF]"
  shows "Reader_iternext (splitlines [] (record_text row @ nl @ rest)) =
         Inr (Some row, splitlines [] rest)"
  using stream_row [OF assms, of False rest]
  by (simp add: Reader_iternext_def reader_loop_stream)

lemma list_reader_write_rows:
  assumes "\<forall>row \<in> set rows. \<forall>f \<in> set row. length f \<le> field_size_limit"
    and "nl = [CR, LF] \<or> nl = [LF]"
  shows "list_reader (splitlines [] (write_rows nl rows)) = Inr rows"
  using assms(1)
proof (induction rows)
  case Nil
  show ?case
    by (subst list_reader.simps) (simp add: write_rows_def Reader_iternext_def parse_reset_def)
next
  case (Cons row rows)
  have "Reader_iternext (splitlines [] (record_text row @ nl @ write_rows nl rows)) =
        Inr (Some row, splitlines [] (write_rows nl rows))"
    using Cons.prems assms(2) by (intro Reader_iternext_row) simp_all
  moreover have "list_reader (splitlines [] (write_rows nl rows)) = Inr rows"
    using Cons by simp
  ultimately show ?case
    by (subst list_reader.simps) (simp add: write_rows_def)
qed

lemma translate_plain:
  "CR \<notin> set xs \<Longrightarrow> translate_newlines (xs @ ys) = xs @ translate_newlines ys"
  by (induction xs) auto

lemma set_join_append_data: "set (join_append_data f) = set f"
  by (induction f) auto

lemma set_join_append: "set (join_append f q) \<subseteq> insert QUOTE (set f)"
  by (auto simp: join_append_def set_join_append_data)

lemma join_fields_no_CR:
  "\<forall>f \<in> set fs. CR \<notin> set f \<Longrightarrow> CR \<notin> set (join_fields n fs)"
proof (induction fs arbitrary: n)
  case Nil
  then show ?case by simp
next
  case (Cons f fs)
  have "CR \<notin> set (join_append f False)" using Cons.prems set_join_append [of f False] by auto
  with Cons show ?case by auto
qed

lemma record_text_no_CR:
  "\<forall>f \<in> set row. CR \<notin> set f \<Longrightarrow> CR \<notin> set (record_text row)"
  using join_fields_no_CR [of row 0]
  by (auto simp: record_text_def Let_def join_append_def)

lemma translate_write_rows:
  "\<forall>row \<in> set rows. \<forall>f \<in> set row. CR \<notin> set f \<Longrightarrow>
   translate_newlines (write_rows [CR, LF] rows) = write_rows [LF] rows"
proof (induction rows)
  case Nil
  then show ?case by (simp add: write_rows_def)
next
  case (Cons row rows)
  then have "CR \<notin> set (record_text row)" by (intro record_text_no_CR) simp
  then have "translate_newlines (record_text row @ CR # LF # write_rows [CR, LF] rows) =
             record_text row @ LF # translate_newlines (write_rows [CR, LF] rows)"
    by (simp add: translate_plain)
  with Cons show ?case by (simp add: write_rows_def)
qed

lemma csv_round_trip:
  assumes "\<forall>row \<in> set rows. \<forall>f \<in> set row. length f \<le> field_size_limit"
  shows "list_reader (readlines (csv_writerows rows)) = Inr rows"
  using list_reader_write_rows [OF assms, of "[CR, LF]"]
  by (simp add: readlines_def csv_writerows_text)

lemma csv_round_trip_translated:
  assumes "\<forall>row \<in> set rows. \<forall>f \<in> set row. length f \<le> field_size_limit"
    and "\<forall>row \<in> set rows. \<forall>f \<in> set row. CR \<notin> set f"
  shows "list_reader (readlines_translated (csv_writerows rows)) = Inr rows"
  using list_reader_write_rows [OF assms(1), of "[LF]"] translate_write_rows [OF assms(2)]
  by (simp add: readlines_translated_def csv_writerows_text)

section \<open>What the reader returns\<close>

text \<open>
  Every field the reader returns is within the field size limit and is made of
  characters of the lines it was given.
\<close>

definition field_ok :: "char set \<Rightarrow> string \<Rightarrow> bool" where
  "field_ok A f \<longleftrightarrow> length f \<le> field_size_limit \<and> set f \<subseteq> A"

definition reader_inv :: "char set \<Rightarrow> reader_obj \<Rightarrow> bool" where
  "reader_inv A r \<longleftrightarrow> field_ok A (rfield r) \<and> (\<forall>f \<in> set (rfields r). field_ok A f)"

lemma field_ok_Nil [simp]: "field_ok A []"
  by (simp add: field_ok_def)

lemma reader_inv_state [simp]: "reader_inv A (r\<lparr>rstate := s\<rparr>) = reader_inv A r"
  by (simp add: reader_inv_def)

lemma reader_inv_save: "reader_inv A r \<Longrightarrow> reader_inv A (parse_save_field r)"
  by (simp add: reader_inv_def parse_save_field_def)

lemma reader_inv_add:
  "reader_inv A r \<Longrightarrow> c \<in> A \<Longrightarrow> parse_add_char r c = Inr r' \<Longrightarrow> reader_inv A r'"
  by (auto simp: reader_inv_def parse_add_char_def field_ok_def split: if_splits)

lemma parse_process_char_inv:
  assumes "reader_inv A r" "parse_process_char r c = Inr r'" "c = None \<or> the c \<in> A"
  shows "reader_inv A r'"
proof (cases c)
  case None
  with assms(1,2) show ?thesis
    by (cases "rstate r")
       (auto simp: parse_process_char_def start_field_def is_newline_def reader_inv_save
          split: if_splits)
next
  case (Some x)
  with assms(3) have x: "x \<in> A" by simp
  have add: "\<And>c r'. c \<in> A \<Longrightarrow> parse_add_char r c = Inr r' \<Longrightarrow> reader_inv A r'"
    by (rule reader_inv_add [OF assms(1)])
  from assms(1,2) Some x show ?thesis
    by (cases "rstate r")
       (auto simp: parse_process_char_def start_field_def is_newline_def reader_inv_save
          split: if_splits sum.splits dest: add)
qed

lemma feed_line_inv:
  "reader_inv A r \<Longrightarrow> feed_line r l = Inr r' \<Longrightarrow> set l \<subseteq> A \<Longrightarrow> reader_inv A r'"
proof (induction l arbitrary: r)
  case Nil
  then show ?case by simp
next
  case (Cons c l)
  from Cons.prems(2) obtain r1 where
    r1: "parse_process_char r (Some c) = Inr r1" and rest: "feed_line r1 l = Inr r'"
    by (auto split: sum.splits)
  have "reader_inv A r1"
    using Cons.prems(1,3) by (intro parse_process_char_inv [OF _ r1]) simp_all
  from Cons.IH [OF this rest] Cons.prems(3) show ?case by simp
qed

lemma reader_loop_inv:
  "reader_inv A r \<Longrightarrow> reader_loop r ls = Inr (Some row, rest) \<Longrightarrow>
   \<forall>l \<in> set ls. set l \<subseteq> A \<Longrightarrow>
   (\<forall>f \<in> set row. field_ok A f) \<and> set rest \<subseteq> set ls"
proof (induction r ls rule: reader_loop.induct)
  case (1 r)
  then show ?case
    by (auto simp: reader_inv_def parse_save_field_def split: if_splits)
next
  case (2 r l ls)
  from "2.prems"(2) obtain r1 r2 where
    r1: "feed_line r l = Inr r1" and r2: "parse_process_char r1 None = Inr r2"
    by (auto split: sum.splits)
  have i1: "reader_inv A r1" using "2.prems"(1,3) by (intro feed_line_inv [OF _ r1]) simp_all
  have i2: "reader_inv A r2" using i1 by (intro parse_process_char_inv [OF _ r2]) simp_all
  show ?case
  proof (cases "rstate r2 = START_RECORD")
    case True
    with "2.prems"(2) r1 r2 have "row = rfields r2" "rest = ls" by simp_all
    with i2 show ?thesis by (auto simp: reader_inv_def)
  next
    case False
    with "2.prems"(2) r1 r2 have "reader_loop r2 ls = Inr (Some row, rest)" by simp
    from "2.IH" [OF r1 r2 False i2 this] "2.prems"(3) show ?thesis by auto
  qed
qed

lemma Reader_iternext_inv:
  assumes "Reader_iternext ls = Inr (Some row, rest)" "\<forall>l \<in> set ls. set l \<subseteq> A"
  shows "(\<forall>f \<in> set row. field_ok A f) \<and> set rest \<subseteq> set ls"
proof -
  have "reader_inv A parse_reset" by (simp add: reader_inv_def parse_reset_def)
  from reader_loop_inv [OF this assms(1) [unfolded Reader_iternext_def] assms(2)]
  show ?thesis .
qed

lemma list_reader_inv:
  "list_reader ls = Inr rows \<Longrightarrow> \<forall>l \<in> set ls. set l \<subseteq> A \<Longrightarrow>
   \<forall>row \<in> set rows. \<forall>f \<in> set row. field_ok A f"
proof (induction ls arbitrary: rows rule: list_reader.induct)
  case (1 ls)
  show ?case
  proof (cases "Reader_iternext ls")
    case (Inl e)
    with "1.prems"(1) show ?thesis by (subst (asm) list_reader.simps) simp
  next
    case (Inr res)
    obtain rowo rest where res: "res = (rowo, rest)" by (cases res)
    show ?thesis
    proof (cases rowo)
      case None
      with "1.prems"(1) Inr res have "rows = []" by (subst (asm) list_reader.simps) simp
      then show ?thesis by simp
    next
      case (Some row)
      with "1.prems"(1) Inr res obtain rows' where
        rec: "list_reader rest = Inr rows'" and rows: "rows = row # rows'"
        by (subst (asm) list_reader.simps) (auto split: sum.splits)
      have it: "Reader_iternext ls = Inr (Some row, rest)" using Inr res Some by simp
      from Reader_iternext_inv [OF it "1.prems"(2)]
      have row: "\<forall>f \<in> set row. field_ok A f"
        and sub: "set rest \<subseteq> set ls" by auto
      have "\<forall>row \<in> set rows'. \<forall>f \<in> set row. field_ok A f"
        using "1.IH" [OF it refl refl rec] sub "1.prems"(2) by blast
      with row rows show ?thesis by simp
    qed
  qed
qed

lemma set_splitlines: "l \<in> set (splitlines cur s) \<Longrightarrow> set l \<subseteq> set cur \<union> set s"
proof (induction cur s rule: splitlines.induct)
  case (1 cur)
  then show ?case by (auto split: if_splits)
next
  case (2 cur c cs)
  show ?case
  proof (cases "c = LF")
    case True
    with "2.prems" "2.IH"(1) show ?thesis by (auto simp: splitlines_LF)
  next
    case notLF: False
    show ?thesis
    proof (cases "c = CR")
      case True
      show ?thesis
      proof (cases cs)
        case Nil
        with True "2.prems" show ?thesis by (auto simp: splitlines_CR)
      next
        case (Cons d ds)
        show ?thesis
        proof (cases "d = LF")
          case dLF: True
          with True Cons "2.prems" "2.IH"(2) [OF notLF True Cons dLF] show ?thesis
            by (auto simp: splitlines_CRLF)
        next
          case dnLF: False
          then have h: "cs = [] \<or> hd cs \<noteq> LF" using Cons by simp
          from "2.prems" "2.IH"(3) [OF notLF True Cons dnLF] show ?thesis
            unfolding True splitlines_CR [OF h] by auto
        qed
      qed
    next
      case False
      with notLF "2.prems" "2.IH"(4) show ?thesis by (auto simp: splitlines_other)
    qed
  qed
qed

lemma translate_newlines_no_CR: "CR \<notin> set (translate_newlines s)"
  by (induction s rule: translate_newlines.induct) (auto split: list.splits)

lemma list_reader_fields:
  assumes "list_reader (readlines s) = Inr rows"
  shows "\<forall>row \<in> set rows. \<forall>f \<in> set row. length f \<le> field_size_limit"
  using list_reader_inv [OF assms, of UNIV] by (simp add: field_ok_def)

lemma list_reader_translated_fields:
  assumes "list_reader (readlines_translated s) = Inr rows"
  shows "\<forall>row \<in> set rows. \<forall>f \<in> set row. length f \<le> field_size_limit \<and> CR \<notin> set f"
proof -
  have "\<forall>l \<in> set (readlines_translated s). set l \<subseteq> - {CR}"
    using set_splitlines [of _ "[]" "translate_newlines s"] translate_newlines_no_CR [of s]
    by (auto simp: readlines_translated_def)
  from list_reader_inv [OF assms this] show ?thesis by (auto simp: field_ok_def)
qed

section \<open>Row dicts and the DictWriter\<close>

lemma set_dict_set: "set (dict_set d k v) \<subseteq> insert (k, v) (set d)"
  by (induction d k v rule: dict_set.induct) auto

lemma keys_dict_set: "fst ` set (dict_set d k v) = insert k (fst ` set d)"
  by (induction d k v rule: dict_set.induct) auto

lemma map_of_dict_set: "map_of (dict_set d k v) = (map_of d)(k \<mapsto> v)"
  by (induction d k v rule: dict_set.induct) (auto simp: fun_upd_twist)


lemma values_dict_set:
  assumes "\<forall>kv \<in> set d. Q (snd kv)" "Q v"
  shows "\<forall>kv \<in> set (dict_set d k v). Q (snd kv)"
  using assms set_dict_set [of d k v] by auto

definition dict_ok :: "rowdict \<Rightarrow> bool" where
  "dict_ok d \<longleftrightarrow> (\<forall>kv \<in> set (named d). length (field_text (snd kv)) \<le> field_size_limit)"

lemma values_foldl_pairs:
  assumes "\<forall>kv \<in> set d0. Q (snd kv)" "\<forall>kx \<in> set kvs. Q (Some (snd kx))"
  shows "\<forall>kv \<in> set (foldl (\<lambda>d (k, v). dict_set d k (Some v)) d0 kvs). Q (snd kv)"
  using assms
proof (induction kvs arbitrary: d0)
  case Nil
  then show ?case by simp
next
  case (Cons kx kvs)
  obtain k x where kx: "kx = (k, x)" by (cases kx)
  have "\<forall>kv \<in> set (dict_set d0 k (Some x)). Q (snd kv)"
    using Cons.prems kx by (intro values_dict_set) simp_all
  from Cons.IH [OF this] Cons.prems(2) kx show ?case by simp
qed

lemma values_foldl_keys:
  assumes "\<forall>kv \<in> set d0. Q (snd kv)" "Q None"
  shows "\<forall>kv \<in> set (foldl (\<lambda>d key. dict_set d key None) d0 ks). Q (snd kv)"
  using assms
proof (induction ks arbitrary: d0)
  case Nil
  then show ?case by simp
next
  case (Cons k ks)
  have "\<forall>kv \<in> set (dict_set d0 k None). Q (snd kv)"
    using Cons.prems by (intro values_dict_set) simp_all
  from Cons.IH [OF this Cons.prems(2)] show ?case by simp
qed

lemma DictReader_row_ok:
  assumes "\<forall>f \<in> set row. length f \<le> field_size_limit"
  shows "dict_ok (DictReader_row fieldnames row)"
proof -
  let ?Q = "\<lambda>v. length (field_text v) \<le> field_size_limit"
  let ?d = "foldl (\<lambda>d (k, v). dict_set d k (Some v)) [] (zip fieldnames row)"
  have "\<forall>kx \<in> set (zip fieldnames row). ?Q (Some (snd kx))"
    using assms by (auto simp: field_text_def dest: set_zip_rightD)
  then have d: "\<forall>kv \<in> set ?d. ?Q (snd kv)"
    by (intro values_foldl_pairs) simp_all
  have "\<forall>kv \<in> set (foldl (\<lambda>d key. dict_set d key None) ?d ks). ?Q (snd kv)" for ks
    using d by (intro values_foldl_keys) (simp_all add: field_text_def)
  with d show ?thesis
    by (simp add: dict_ok_def DictReader_row_def Let_def)
qed

lemma list_DictReader_eq:
  "list_DictReader fieldnames ls =
     (case list_reader ls of
        Inl e \<Rightarrow> Inl e
      | Inr rows \<Rightarrow> Inr (map (DictReader_row fieldnames) (filter (\<lambda>row. row \<noteq> []) rows)))"
proof (induction ls rule: list_reader.induct)
  case (1 ls)
  show ?case
  proof (cases "Reader_iternext ls")
    case (Inl e)
    then show ?thesis
      by (subst list_DictReader.simps, subst list_reader.simps) simp
  next
    case (Inr res)
    obtain rowo rest where res: "res = (rowo, rest)" by (cases res)
    show ?thesis
    proof (cases rowo)
      case None
      with Inr res show ?thesis
        by (subst list_DictReader.simps, subst list_reader.simps) simp
    next
      case (Some row)
      with Inr res have it: "Reader_iternext ls = Inr (Some row, rest)" by simp
      from "1.IH" [OF it refl refl] it show ?thesis
        by (subst list_DictReader.simps, subst list_reader.simps) (simp split: sum.splits)
    qed
  qed
qed

lemma list_DictReader_ok:
  assumes "list_DictReader fieldnames ls = Inr ds"
  shows "\<forall>d \<in> set ds. dict_ok d"
proof -
  from assms obtain rows where rows: "list_reader ls = Inr rows"
    and ds: "ds = map (DictReader_row fieldnames) (filter (\<lambda>row. row \<noteq> []) rows)"
    by (auto simp: list_DictReader_eq split: sum.splits)
  have "\<forall>row \<in> set rows. \<forall>f \<in> set row. field_ok UNIV f"
    using list_reader_inv [OF rows, of UNIV] by simp
  then show ?thesis
    unfolding ds by (auto simp: field_ok_def intro!: DictReader_row_ok)
qed

lemma length_strip: "length (strip t) \<le> length t"
proof -
  have "length (strip t) \<le> length (dropWhile isspace t)"
    by (simp add: strip_def length_dropWhile_le del: length_rev) (metis length_dropWhile_le length_rev)
  also have "\<dots> \<le> length t" by (rule length_dropWhile_le)
  finally show ?thesis .
qed

lemma set_new_columns_ok:
  assumes "dict_ok d" "length (field_text v) \<le> field_size_limit"
  shows "dict_ok (set_new_columns d v)"
proof -
  let ?Q = "\<lambda>x. length (field_text x) \<le> field_size_limit"
  have two: "\<forall>kv \<in> set (dict_set (dict_set (named d) k1 v1) k2 v2). ?Q (snd kv)"
    if "?Q v1" "?Q v2" for k1 v1 k2 v2
    using assms(1) that by (intro values_dict_set) (simp_all add: dict_ok_def)
  have s: "?Q (Some (strip t))" if "v = Some t" for t
    using assms(2) that length_strip [of t] by (simp add: field_text_def)
  have c: "?Q (Some ''1'')" "?Q (Some ''0'')" "?Q (Some [])"
    by (simp_all add: field_text_def field_size_limit_def)
  show ?thesis
    using two s c by (cases v) (simp_all add: set_new_columns_def dict_ok_def)
qed

lemma find_milestone_text_mem:
  "find_milestone_text d = Some v \<Longrightarrow> \<exists>k. (k, v) \<in> set d"
  by (induction d) (auto split: if_splits)

lemma migrate_row_ok:
  assumes "dict_ok d" "migrate_row d = Inr d'"
  shows "dict_ok d'"
proof (cases "find_milestone_text (named d)")
  case None
  with assms show ?thesis
    by (auto simp: migrate_row_def field_text_def split: option.splits
        intro!: set_new_columns_ok)
next
  case (Some v)
  from find_milestone_text_mem [OF Some] assms(1)
  have "length (field_text v) \<le> field_size_limit" by (auto simp: dict_ok_def)
  with assms Some show ?thesis
    by (auto simp: migrate_row_def intro!: set_new_columns_ok)
qed

lemma migrate_rows_ok:
  "migrate_rows name n_rows i ds = (msgs, Inr ds') \<Longrightarrow> \<forall>d \<in> set ds. dict_ok d \<Longrightarrow>
   (\<forall>d \<in> set ds'. dict_ok d) \<and> length ds' = length ds"
proof (induction ds arbitrary: i msgs ds')
  case Nil
  then show ?case by simp
next
  case (Cons d ds)
  from Cons.prems(1) obtain d1 m1 ds1 where
    d1: "migrate_row d = Inr d1" and
    rec: "migrate_rows name n_rows (i + 1) ds = (m1, Inr ds1)" and
    ds': "ds' = d1 # ds1"
    by (auto simp: Let_def split: sum.splits prod.splits)
  from Cons.IH [OF rec] Cons.prems(2) migrate_row_ok [OF _ d1] ds' show ?case by simp
qed

lemma dict_values_ok:
  assumes "dict_ok d"
  shows "\<forall>v \<in> set (dict_values fieldnames d). length (field_text v) \<le> field_size_limit"
  using assms
  by (auto simp: dict_values_def dict_ok_def field_text_def split: option.splits
      dest!: map_of_SomeD)

lemma keys_foldl_pairs:
  "fst ` set (foldl (\<lambda>d (k, v). dict_set d k (Some v)) d0 kvs) = fst ` set d0 \<union> fst ` set kvs"
proof (induction kvs arbitrary: d0)
  case Nil
  show ?case by simp
next
  case (Cons kx kvs)
  obtain k x where kx: "kx = (k, x)" by (cases kx)
  have "fst ` set (foldl (\<lambda>d (k, v). dict_set d k (Some v)) (dict_set d0 k (Some x)) kvs) =
        insert k (fst ` set d0) \<union> fst ` set kvs"
    unfolding Cons.IH keys_dict_set ..
  then show ?case using kx by simp
qed

lemma map_of_foldl_zip_same:
  "map_of (foldl (\<lambda>d (k, v). dict_set d k (Some v)) d0 (zip xs xs)) k =
     (if k \<in> set xs then Some (Some k) else map_of d0 k)"
  by (induction xs arbitrary: d0) (auto simp: map_of_dict_set)

lemma DictWriter_writeheader_eq:
  "DictWriter_writeheader fieldnames = Inr (csv_writerow fieldnames)"
proof -
  let ?d = "foldl (\<lambda>d (k, v). dict_set d k (Some v)) [] (zip fieldnames fieldnames)"
  have keys: "fst ` set ?d \<subseteq> set fieldnames"
    by (auto simp: keys_foldl_pairs dest: set_zip_leftD)
  have "map field_text (dict_values fieldnames \<lparr>named = ?d, restkey = None\<rparr>) = fieldnames"
    by (simp add: dict_values_def map_of_foldl_zip_same field_text_def map_idI)
  with keys show ?thesis
    by (auto simp: DictWriter_writeheader_def DictWriter_writerow_def dict_to_list_def)
qed

lemma DictWriter_writerows_text:
  "DictWriter_writerows fieldnames ds = (body, None) \<Longrightarrow>
   body = csv_writerows (map (\<lambda>d. map field_text (dict_values fieldnames d)) ds)"
proof (induction ds arbitrary: body)
  case Nil
  then show ?case by (simp add: csv_writerows_def)
next
  case (Cons d ds)
  from Cons.prems obtain line rest where
    line: "DictWriter_writerow fieldnames d = Inr line" and
    rest: "DictWriter_writerows fieldnames ds = (rest, None)" and
    tx: "body = line @ rest"
    by (auto split: sum.splits prod.splits)
  from line have "line = csv_writerow (map field_text (dict_values fieldnames d))"
    by (auto simp: DictWriter_writerow_def dict_to_list_def split: if_splits)
  with Cons.IH [OF rest] tx show ?case by (simp add: csv_writerows_def)
qed

text \<open>What a run of \<open>migrate_sessions_content\<close> that opens the file for writing went through.\<close>

lemma migrate_sessions_content_WriteFile:
  assumes "migrate_sessions_content name s = (msgs, WriteFile text err n)"
  shows "\<exists>cleaned leading h rest ds m2 ms body.
           clean_csv_file_content s = (cleaned, leading) \<and> cleaned \<noteq> [] \<and>
           Reader_iternext cleaned = Inr (Some h, rest) \<and>
           \<not> (''action'' \<in> set h \<and> ''is_milestone'' \<in> set h) \<and>
           list_DictReader h (drop leading (readlines s)) = Inr ds \<and> ds \<noteq> [] \<and>
           migrate_rows name (length ds) 0 ds = (m2, Inr ms) \<and> n = length ms \<and>
           DictWriter_writerows (h @ [''action'', ''is_milestone'']) ms = (body, err) \<and>
           text = csv_writerow (h @ [''action'', ''is_milestone'']) @ body"
proof -
  obtain cleaned leading where cl: "clean_csv_file_content s = (cleaned, leading)"
    by (cases "clean_csv_file_content s")
  from assms cl have ne: "cleaned \<noteq> []"
    by (auto simp: migrate_sessions_content_def migrate_cleaned_def split: if_splits)
  from assms cl ne obtain h rest where
    h: "Reader_iternext cleaned = Inr (Some h, rest)"
    by (auto simp: migrate_sessions_content_def migrate_cleaned_def Let_def split: sum.splits option.splits)
  from assms cl ne h have nb: "\<not> (''action'' \<in> set h \<and> ''is_milestone'' \<in> set h)"
    by (auto simp: migrate_sessions_content_def migrate_cleaned_def Let_def split: if_splits)
  from assms cl ne h nb obtain ds where
    ds: "list_DictReader h (drop leading (readlines s)) = Inr ds"
    by (auto simp: migrate_sessions_content_def migrate_cleaned_def Let_def split: sum.splits)
  from assms cl ne h nb ds have dne: "ds \<noteq> []"
    by (auto simp: migrate_sessions_content_def migrate_cleaned_def Let_def split: if_splits)
  obtain m2 res where mr: "migrate_rows name (length ds) 0 ds = (m2, res)"
    by (cases "migrate_rows name (length ds) 0 ds")
  from assms cl ne h nb ds dne mr obtain ms where ms: "res = Inr ms"
    by (auto simp: migrate_sessions_content_def migrate_cleaned_def Let_def split: sum.splits)
  obtain body err' where
    w: "DictWriter_writerows (h @ [''action'', ''is_milestone'']) ms = (body, err')"
    by (cases "DictWriter_writerows (h @ [''action'', ''is_milestone'']) ms")
  from assms cl ne h nb ds dne mr ms w
  have "text = csv_writerow (h @ [''action'', ''is_milestone'']) @ body" "err = err'"
    "n = length ms"
    by (auto simp: migrate_sessions_content_def migrate_cleaned_def Let_def DictWriter_writeheader_eq)
  with cl ne h nb ds dne mr ms w show ?thesis by blast
qed

section \<open>Evaluating the model on concrete files\<close>

lemmas reader_simps =
  splitlines.simps list_reader.simps Reader_iternext_def parse_reset_def parse_process_char_def
  start_field_def is_newline_def parse_add_char_def parse_save_field_def field_size_limit_def

lemmas drop_simps =
  migrate_csv_file_def open_read_def write_file_def readlines_translated_def
  csv_writerows_def csv_writerow_def join_append_def want_quote_def without_index_def
  new_row_def Let_def

lemmas add_simps =
  migrate_sessions_content_def migrate_cleaned_def clean_csv_file_content_def readlines_def strip_def isspace_def
  list_DictReader.simps DictReader_row_def migrate_row_def set_new_columns_def
  lower_def lower_char_def char_of_eq_iff
  DictWriter_writeheader_def DictWriter_writerow_def dict_to_list_def dict_values_def
  field_text_def csv_writerow_def join_append_def want_quote_def Let_def

section \<open>Removing the column: what is removed\<close>

lemma list_index_first:
  "x \<notin> set a \<Longrightarrow> list_index (a @ x # b) x = Some (length a)"
  by (induction a) auto

lemma list_index_nth:
  assumes "i < length xs" "xs ! i = x" "x \<notin> set (take i xs)"
  shows "list_index xs x = Some i"
proof -
  have "xs = take i xs @ x # drop (Suc i) xs"
    using id_take_nth_drop [OF assms(1)] assms(2) by simp
  then have "list_index xs x = list_index (take i xs @ x # drop (Suc i) xs) x" by simp
  also have "\<dots> = Some (length (take i xs))" using assms(3) by (rule list_index_first)
  finally show ?thesis using assms(1) by simp
qed

lemma new_row_eq:
  "new_row i = (\<lambda>row. if i < length row then take i row @ drop (Suc i) row else row)"
  by (rule ext) (simp add: new_row_def without_index_def)

text \<open>
  A header that names \<^verbatim>\<open>milestone_text\<close> twice holds the name at index 1 as well,
  but the field a row loses is the one at index 0, where \<^verbatim>\<open>header.index\<close> finds
  the name first: the row \<open>a,b\<close> is written as \<open>b\<close>, not as \<open>a\<close>.
\<close>

theorem drop_column_index_counterexample:
  "list_reader (readlines_translated (''milestone_text,milestone_text'' @ [LF] @ ''a,b'' @ [LF])) =
     Inr [[''milestone_text'', ''milestone_text''], [''a'', ''b'']] \<and>
   [''milestone_text'', ''milestone_text''] ! 1 = ''milestone_text'' \<and>
   fst (migrate_csv_file
          (\<lambda>_. \<lparr>data = Some (''milestone_text,milestone_text'' @ [LF] @ ''a,b'' @ [LF]),
                 writable = True\<rparr>) ''a-data.csv'') =
     write_file
       (\<lambda>_. \<lparr>data = Some (''milestone_text,milestone_text'' @ [LF] @ ''a,b'' @ [LF]),
              writable = True\<rparr>) ''a-data.csv''
       (csv_writerows [[''milestone_text''], [''b'']]) \<and>
   csv_writerows [[''milestone_text''], [''b'']] \<noteq>
     csv_writerows
       ((take 1 [''milestone_text'', ''milestone_text''] @
         drop (Suc 1) [''milestone_text'', ''milestone_text'']) #
        map (\<lambda>row. if 1 < length row then take 1 row @ drop (Suc 1) row else row)
          [[''a'', ''b'']])"
  by (simp add: drop_simps reader_simps)

text \<open>
  C3, amended. Let the table read from the file have \<^verbatim>\<open>milestone_text\<close> in its
  header, and let \<open>i\<close> be the index of its first occurrence, the position
  \<^verbatim>\<open>header.index\<close> finds. Then the table written back has the header without the
  field at index \<open>i\<close>; a data row with more than \<open>i\<close> fields loses the field at
  index \<open>i\<close>, and a row with \<open>i\<close> or fewer fields is written as it was read.
\<close>

theorem drop_column_at_index:
  assumes "data (fls file_path) = Some s"
    and "list_reader (readlines_translated s) = Inr (header # data_rows)"
    and "i < length header" and "header ! i = ''milestone_text''"
    and "''milestone_text'' \<notin> set (take i header)"
    and "writable (fls file_path)"
  shows "\<exists>msgs. migrate_csv_file fls file_path =
           (write_file fls file_path
              (csv_writerows
                 ((take i header @ drop (Suc i) header) #
                  map (\<lambda>row. if i < length row then take i row @ drop (Suc i) row else row)
                    data_rows)),
            msgs, True)"
proof -
  have idx: "list_index header ''milestone_text'' = Some i"
    using assms(3-5) by (rule list_index_nth)
  have mem: "''milestone_text'' \<in> set header"
    using assms(3,4) nth_mem by metis
  show ?thesis
    using assms(1,2,6) idx mem
    by (simp add: migrate_csv_file_def open_read_def without_index_def Let_def new_row_eq)
qed

theorem drop_column_at_index_witness:
  "\<exists>msgs. migrate_csv_file
      (\<lambda>_. \<lparr>data = Some (''id,milestone_text,note'' @ [LF] @ ''1,hit 10k,ok'' @ [LF] @
                          ''2'' @ [LF]),
             writable = True\<rparr>) ''a-data.csv'' =
     (write_file
        (\<lambda>_. \<lparr>data = Some (''id,milestone_text,note'' @ [LF] @ ''1,hit 10k,ok'' @ [LF] @
                            ''2'' @ [LF]),
               writable = True\<rparr>) ''a-data.csv''
        (csv_writerows [[''id'', ''note''], [''1'', ''ok''], [''2'']]),
      msgs, True)"
proof -
  let ?s = "''id,milestone_text,note'' @ [LF] @ ''1,hit 10k,ok'' @ [LF] @ ''2'' @ [LF]"
  let ?fls = "\<lambda>_::path. \<lparr>data = Some ?s, writable = True\<rparr>"
  let ?header = "[''id'', ''milestone_text'', ''note'']"
  have p: "list_reader (readlines_translated ?s) =
      Inr (?header # [[''1'', ''hit 10k'', ''ok''], [''2'']])"
    by (simp add: readlines_translated_def reader_simps)
  have "\<exists>msgs. migrate_csv_file ?fls ''a-data.csv'' =
           (write_file ?fls ''a-data.csv''
              (csv_writerows
                 ((take 1 ?header @ drop (Suc 1) ?header) #
                  map (\<lambda>row. if 1 < length row then take 1 row @ drop (Suc 1) row else row)
                    [[''1'', ''hit 10k'', ''ok''], [''2'']])),
            msgs, True)"
    by (rule drop_column_at_index [where s = ?s, OF _ p]) simp_all
  then show ?thesis by simp
qed

text \<open>
  C10. When \<^verbatim>\<open>milestone_text\<close> occurs in the header more than once, only its
  first occurrence is removed: with the header \<open>a @ milestone_text # b\<close>, where \<open>a\<close> is
  free of the name and \<open>b\<close> holds it again, the new header is \<open>a @ b\<close>, and a row
  longer than \<open>a\<close> loses the one field at index \<open>length a\<close>; the fields under the
  later occurrences stay.
\<close>

theorem drop_first_occurrence_only:
  assumes "data (fls file_path) = Some s"
    and "list_reader (readlines_translated s) = Inr ((a @ ''milestone_text'' # b) # data_rows)"
    and "''milestone_text'' \<notin> set a"
    and "''milestone_text'' \<in> set b"
    and "writable (fls file_path)"
  shows "\<exists>msgs. migrate_csv_file fls file_path =
           (write_file fls file_path
              (csv_writerows
                 ((a @ b) #
                  map (\<lambda>row. if length a < length row
                              then take (length a) row @ drop (Suc (length a)) row else row)
                    data_rows)),
            msgs, True)"
proof -
  have idx: "list_index (a @ ''milestone_text'' # b) ''milestone_text'' = Some (length a)"
    using assms(3) by (rule list_index_first)
  show ?thesis
    using assms(1,2,5) idx
    by (simp add: migrate_csv_file_def open_read_def without_index_def Let_def new_row_eq)
qed

theorem drop_first_occurrence_only_witness:
  "\<exists>msgs. migrate_csv_file
      (\<lambda>_. \<lparr>data = Some (''id,milestone_text,milestone_text'' @ [LF] @ ''1,x,y'' @ [LF] @
                          ''2'' @ [LF]),
             writable = True\<rparr>) ''a-data.csv'' =
     (write_file
        (\<lambda>_. \<lparr>data = Some (''id,milestone_text,milestone_text'' @ [LF] @ ''1,x,y'' @ [LF] @
                            ''2'' @ [LF]),
               writable = True\<rparr>) ''a-data.csv''
        (csv_writerows [[''id'', ''milestone_text''], [''1'', ''y''], [''2'']]),
      msgs, True)"
proof -
  let ?s = "''id,milestone_text,milestone_text'' @ [LF] @ ''1,x,y'' @ [LF] @ ''2'' @ [LF]"
  let ?fls = "\<lambda>_::path. \<lparr>data = Some ?s, writable = True\<rparr>"
  have p: "list_reader (readlines_translated ?s) =
      Inr (([''id''] @ ''milestone_text'' # [''milestone_text'']) # [[''1'', ''x'', ''y''], [''2'']])"
    by (simp add: readlines_translated_def reader_simps)
  have "\<exists>msgs. migrate_csv_file ?fls ''a-data.csv'' =
           (write_file ?fls ''a-data.csv''
              (csv_writerows
                 (([''id''] @ [''milestone_text'']) #
                  map (\<lambda>row. if length [''id''] < length row
                              then take (length [''id'']) row @ drop (Suc (length [''id''])) row
                              else row)
                    [[''1'', ''x'', ''y''], [''2'']])),
            msgs, True)"
    by (rule drop_first_occurrence_only [where s = ?s, OF _ p]) simp_all
  then show ?thesis by simp
qed

section \<open>Reading back the written file\<close>

lemma list_index_Some:
  "list_index xs x = Some i \<Longrightarrow> i < length xs \<and> xs ! i = x"
  by (induction xs arbitrary: i) (auto split: if_splits)

lemma set_without_index: "set (without_index i xs) \<subseteq> set xs"
  by (auto simp: without_index_def dest: in_set_takeD in_set_dropD)

lemma set_new_row: "set (new_row i row) \<subseteq> set row"
  using set_without_index [of i row] by (simp add: new_row_def)

lemma migrate_csv_file_writes:
  assumes "data (fls file_path) = Some s"
    and "list_reader (readlines_translated s) = Inr (header # data_rows)"
    and "list_index header ''milestone_text'' = Some idx"
    and "writable (fls file_path)"
  shows "migrate_csv_file fls file_path =
           (write_file fls file_path
              (csv_writerows (without_index idx header # map (new_row idx) data_rows)),
            [Processing file_path, FoundAtIndex idx, SuccessfullyMigrated (length data_rows),
             NewHeader (str_join '','' (without_index idx header))],
            True)"
proof -
  from list_index_Some [OF assms(3)] have "''milestone_text'' \<in> set header"
    using nth_mem by metis
  with assms show ?thesis
    by (simp add: migrate_csv_file_def open_read_def Let_def)
qed

lemma new_rows_fields:
  assumes "list_reader (readlines_translated s) = Inr (header # data_rows)"
  shows "\<forall>row \<in> set (without_index idx header # map (new_row idx) data_rows).
           \<forall>f \<in> set row. length f \<le> field_size_limit \<and> CR \<notin> set f"
  using list_reader_translated_fields [OF assms] set_without_index [of idx header]
    set_new_row [of idx]
  by (auto simp del: translate_newlines.simps) blast+

text \<open>
  C8. The table a migration hands to the writer is read back from the written text as
  the same rows, by the reader the script itself uses: for the removal of the column,
  the table is the new header and the new rows, read with translated newlines; for the
  added columns, it is the extended header and the values of the migrated rows, read
  with \<^verbatim>\<open>newline=''\<close>. The writer quotes a field that holds the delimiter, the
  quote character, CR or LF, and doubles a quote character inside.
\<close>

theorem written_table_reads_back:
  "(data (fls file_path) = Some s \<and>
    list_reader (readlines_translated s) = Inr (header # data_rows) \<and>
    list_index header ''milestone_text'' = Some idx \<and> writable (fls file_path) \<longrightarrow>
      (let new_rows = without_index idx header # map (new_row idx) data_rows
       in fst (migrate_csv_file fls file_path) =
            write_file fls file_path (csv_writerows new_rows) \<and>
          list_reader (readlines_translated (csv_writerows new_rows)) = Inr new_rows)) \<and>
   (migrate_sessions_content name s' = (msgs, WriteFile out None n) \<longrightarrow>
      (\<exists>h rest ms.
         Reader_iternext (fst (clean_csv_file_content s')) = Inr (Some h, rest) \<and>
         length ms = n \<and>
         (let fieldnames = h @ [''action'', ''is_milestone''];
              table = fieldnames # map (\<lambda>d. map field_text (dict_values fieldnames d)) ms
          in out = csv_writerows table \<and> list_reader (readlines out) = Inr table))) \<and>
   ((\<exists>c \<in> set f. c = DELIM \<or> c = QUOTE \<or> c = CR \<or> c = LF) \<longrightarrow>
      join_append f False = QUOTE # join_append_data f @ [QUOTE]) \<and>
   join_append_data (QUOTE # f) = QUOTE # QUOTE # join_append_data f"
proof (intro conjI impI)
  assume a: "data (fls file_path) = Some s \<and>
    list_reader (readlines_translated s) = Inr (header # data_rows) \<and>
    list_index header ''milestone_text'' = Some idx \<and> writable (fls file_path)"
  let ?T = "without_index idx header # map (new_row idx) data_rows"
  from a have w: "fst (migrate_csv_file fls file_path) = write_file fls file_path (csv_writerows ?T)"
    by (simp add: migrate_csv_file_writes)
  from a have p: "list_reader (readlines_translated s) = Inr (header # data_rows)" by simp
  have f: "\<forall>row \<in> set ?T. \<forall>f \<in> set row. length f \<le> field_size_limit \<and> CR \<notin> set f"
    by (rule new_rows_fields [OF p])
  have "list_reader (readlines_translated (csv_writerows ?T)) = Inr ?T"
    using f by (intro csv_round_trip_translated) blast+
  with w show "let new_rows = ?T
       in fst (migrate_csv_file fls file_path) =
            write_file fls file_path (csv_writerows new_rows) \<and>
          list_reader (readlines_translated (csv_writerows new_rows)) = Inr new_rows"
    by (simp add: Let_def)
next
  assume a: "migrate_sessions_content name s' = (msgs, WriteFile out None n)"
  from migrate_sessions_content_WriteFile [OF a] obtain cleaned leading h rest ds m2 ms body
    where cl: "clean_csv_file_content s' = (cleaned, leading)"
      and h: "Reader_iternext cleaned = Inr (Some h, rest)"
      and ds: "list_DictReader h (drop leading (readlines s')) = Inr ds"
      and ms: "migrate_rows name (length ds) 0 ds = (m2, Inr ms)" and n: "n = length ms"
      and w: "DictWriter_writerows (h @ [''action'', ''is_milestone'']) ms = (body, None)"
      and out: "out = csv_writerow (h @ [''action'', ''is_milestone'']) @ body"
    by blast
  let ?fn = "h @ [''action'', ''is_milestone'']"
  let ?T = "?fn # map (\<lambda>d. map field_text (dict_values ?fn d)) ms"
  have o: "out = csv_writerows ?T"
    using out DictWriter_writerows_text [OF w] by (simp add: csv_writerows_def)
  have hf: "\<forall>f \<in> set h. length f \<le> field_size_limit"
    using Reader_iternext_inv [OF h, of UNIV] by (simp add: field_ok_def)
  have "\<forall>d \<in> set ms. dict_ok d"
    using migrate_rows_ok [OF ms] list_DictReader_ok [OF ds] by blast
  then have "\<forall>d \<in> set ms. \<forall>f \<in> set (map field_text (dict_values ?fn d)).
      length f \<le> field_size_limit"
    using dict_values_ok by auto
  with hf have "\<forall>row \<in> set ?T. \<forall>f \<in> set row. length f \<le> field_size_limit"
    by (auto simp: field_size_limit_def)
  then have "list_reader (readlines (csv_writerows ?T)) = Inr ?T"
    by (rule csv_round_trip)
  with o h cl n show "\<exists>h rest ms.
         Reader_iternext (fst (clean_csv_file_content s')) = Inr (Some h, rest) \<and>
         length ms = n \<and>
         (let fieldnames = h @ [''action'', ''is_milestone''];
              table = fieldnames # map (\<lambda>d. map field_text (dict_values fieldnames d)) ms
          in out = csv_writerows table \<and> list_reader (readlines out) = Inr table)"
    by (auto simp: Let_def)
next
  assume "\<exists>c \<in> set f. c = DELIM \<or> c = QUOTE \<or> c = CR \<or> c = LF"
  then show "join_append f False = QUOTE # join_append_data f @ [QUOTE]"
    by (auto simp: join_append_def want_quote_def)
next
  show "join_append_data (QUOTE # f) = QUOTE # QUOTE # join_append_data f" by simp
qed


theorem written_table_reads_back_witness:
  "fst (migrate_csv_file
          (\<lambda>_. \<lparr>data = Some (''id,milestone_text,note'' @ [LF] @ ''1,hit 10k,ok'' @ [LF]),
                 writable = True\<rparr>) ''a-data.csv'') =
     write_file
       (\<lambda>_. \<lparr>data = Some (''id,milestone_text,note'' @ [LF] @ ''1,hit 10k,ok'' @ [LF]),
              writable = True\<rparr>) ''a-data.csv''
       (csv_writerows [[''id'', ''note''], [''1'', ''ok'']]) \<and>
   list_reader (readlines_translated (csv_writerows [[''id'', ''note''], [''1'', ''ok'']])) =
     Inr [[''id'', ''note''], [''1'', ''ok'']] \<and>
   (\<exists>h rest ms.
      Reader_iternext
        (fst (clean_csv_file_content (''id,milestone_text'' @ [CR, LF] @ ''1,a b'' @ [CR, LF]))) =
        Inr (Some h, rest) \<and>
      length ms = 2 \<and>
      (let fieldnames = h @ [''action'', ''is_milestone''];
           table = fieldnames # map (\<lambda>d. map field_text (dict_values fieldnames d)) ms
       in ''id,milestone_text,action,is_milestone'' @ [CR, LF] @
          ''id,milestone_text,milestone_text,1'' @ [CR, LF] @
          ''1,a b,a b,1'' @ [CR, LF] = csv_writerows table \<and>
          list_reader (readlines (''id,milestone_text,action,is_milestone'' @ [CR, LF] @
            ''id,milestone_text,milestone_text,1'' @ [CR, LF] @
            ''1,a b,a b,1'' @ [CR, LF])) = Inr table)) \<and>
   join_append ''a,b'' False = QUOTE # join_append_data ''a,b'' @ [QUOTE]"
proof -
  let ?s = "''id,milestone_text,note'' @ [LF] @ ''1,hit 10k,ok'' @ [LF]"
  let ?fls = "\<lambda>_::path. \<lparr>data = Some ?s, writable = True\<rparr>"
  let ?s' = "''id,milestone_text'' @ [CR, LF] @ ''1,a b'' @ [CR, LF]"
  let ?out = "''id,milestone_text,action,is_milestone'' @ [CR, LF] @
          ''id,milestone_text,milestone_text,1'' @ [CR, LF] @ ''1,a b,a b,1'' @ [CR, LF]"
  have h1: "data (?fls ''a-data.csv'') = Some ?s \<and>
      list_reader (readlines_translated ?s) =
        Inr ([''id'', ''milestone_text'', ''note''] # [[''1'', ''hit 10k'', ''ok'']]) \<and>
      list_index [''id'', ''milestone_text'', ''note''] ''milestone_text'' = Some 1 \<and>
      writable (?fls ''a-data.csv'')"
    by (simp add: readlines_translated_def reader_simps)
  have h2: "migrate_sessions_content ''a-data.csv'' ?s' = ([], WriteFile ?out None 2)"
    by (simp add: add_simps reader_simps)
  have h3: "\<exists>c \<in> set ''a,b''. c = DELIM \<or> c = QUOTE \<or> c = CR \<or> c = LF" by simp
  from written_table_reads_back
    [of ?fls "''a-data.csv''" ?s "[''id'', ''milestone_text'', ''note'']"
       "[[''1'', ''hit 10k'', ''ok'']]" 1 "''a-data.csv''" ?s' "[]" ?out 2 "''a,b''"]
    h1 h2 h3
  show ?thesis
    by (simp add: Let_def new_row_def without_index_def)
qed

section \<open>Running a migration twice\<close>

lemma strip_nonblank:
  assumes "\<exists>c \<in> set l. \<not> isspace c"
  shows "strip l \<noteq> []"
proof -
  let ?m = "dropWhile isspace l"
  from assms have m: "?m \<noteq> []" by (auto simp: dropWhile_eq_Nil_conv)
  then have "\<not> isspace (hd ?m)" by (rule hd_dropWhile)
  moreover have "hd ?m \<in> set (rev ?m)" using m by simp
  ultimately have "dropWhile isspace (rev ?m) \<noteq> []"
    by (auto simp: dropWhile_eq_Nil_conv simp del: set_rev)
  then show ?thesis by (simp add: strip_def)
qed

lemma splitlines_cur:
  "cur \<noteq> [] \<Longrightarrow> \<exists>l ls x. splitlines cur t = l # ls \<and> l = cur @ x"
proof (induction cur t rule: splitlines.induct)
  case (1 cur)
  then show ?case by simp
next
  case (2 cur c cs)
  show ?case
  proof (cases "c = LF \<or> c = CR")
    case True
    then show ?thesis
      by (cases cs) (auto simp: splitlines.simps(2))
  next
    case False
    then have "splitlines cur (c # cs) = splitlines (cur @ [c]) cs"
      by (simp add: splitlines_other)
    moreover from False "2.IH"(4) obtain l ls x where
      "splitlines (cur @ [c]) cs = l # ls" "l = (cur @ [c]) @ x" by auto
    ultimately show ?thesis by auto
  qed
qed

lemma splitlines_first:
  assumes "LF \<notin> set p" "CR \<notin> set p" "c \<noteq> LF" "c \<noteq> CR"
  shows "\<exists>l ls. splitlines cur (p @ c # t) = l # ls \<and> c \<in> set l"
  using assms(1,2)
proof (induction p arbitrary: cur)
  case Nil
  from splitlines_cur [of "cur @ [c]" t] obtain l ls x where
    "splitlines (cur @ [c]) t = l # ls" "l = (cur @ [c]) @ x" by auto
  then show ?case using assms(3,4) by (auto simp: splitlines_other)
next
  case (Cons a p)
  from Cons.prems have "a \<noteq> LF" "a \<noteq> CR" by auto
  then have "splitlines cur ((a # p) @ c # t) = splitlines (cur @ [a]) (p @ c # t)"
    by (simp add: splitlines_other)
  with Cons show ?case by simp
qed

lemma record_text_first_line:
  assumes "2 \<le> length row"
  shows "\<exists>l ls. splitlines [] (record_text row @ t) = l # ls \<and> strip l \<noteq> []"
proof -
  from assms obtain f g fs where row: "row = f # g # fs"
    by (cases row; cases "tl row") auto
  have tx: "record_text row @ t =
      join_append f False @ DELIM # (join_append g False @ join_fields (Suc (Suc 0)) fs @ t)"
    using row by (simp add: record_text_Cons)
  have "\<exists>p c u. record_text row @ t = p @ c # u \<and> LF \<notin> set p \<and> CR \<notin> set p \<and>
          c \<noteq> LF \<and> c \<noteq> CR \<and> \<not> isspace c"
  proof (cases "\<exists>c \<in> set f. want_quote c")
    case True
    then have "record_text row @ t = [] @ QUOTE # (join_append_data f @ [QUOTE] @
        DELIM # (join_append g False @ join_fields (Suc (Suc 0)) fs @ t))"
      unfolding tx by (simp add: join_append_def)
    moreover have "\<not> isspace QUOTE" by (simp add: isspace_def)
    ultimately show ?thesis by (intro exI [of _ "[]"] exI [of _ QUOTE] exI) auto
  next
    case False
    then have "join_append f False = f" "LF \<notin> set f" "CR \<notin> set f"
      by (auto simp: join_append_def want_quote_def intro: join_append_data_plain)
    moreover have "\<not> isspace DELIM" by (simp add: isspace_def)
    ultimately show ?thesis unfolding tx by (intro exI [of _ f] exI [of _ DELIM] exI) auto
  qed
  then obtain p c u where "record_text row @ t = p @ c # u" "LF \<notin> set p" "CR \<notin> set p"
    "c \<noteq> LF" "c \<noteq> CR" "\<not> isspace c" by blast
  with splitlines_first [of p c "[]" u] obtain l ls where
    "splitlines [] (record_text row @ t) = l # ls" "c \<in> set l" by auto
  with \<open>\<not> isspace c\<close> strip_nonblank [of l] show ?thesis by blast
qed

lemma migrate_sessions_content_again:
  assumes "\<forall>f \<in> set h. length f \<le> field_size_limit"
  shows "migrate_sessions_content name (csv_writerow (h @ [''action'', ''is_milestone'']) @ body) =
         ([AlreadyCompleted name], Continue)"
proof -
  let ?fn = "h @ [''action'', ''is_milestone'']"
  let ?s = "csv_writerow ?fn @ body"
  have s: "?s = record_text ?fn @ [CR, LF] @ body" by (simp add: csv_writerow_text)
  from record_text_first_line [of ?fn "[CR, LF] @ body"] obtain l ls where
    lines: "readlines ?s = l # ls" and l: "strip l \<noteq> []"
    unfolding s readlines_def by auto
  then have cl: "clean_csv_file_content ?s = (readlines ?s, 0)"
    by (simp add: clean_csv_file_content_def)
  have fn: "\<forall>f \<in> set ?fn. length f \<le> field_size_limit"
    using assms by (auto simp: field_size_limit_def)
  have "Reader_iternext (readlines ?s) = Inr (Some ?fn, splitlines [] body)"
    unfolding s readlines_def by (rule Reader_iternext_row [OF fn]) simp
  with cl lines show ?thesis
    by (simp add: migrate_sessions_content_def migrate_cleaned_def)
qed

lemma without_index_once:
  assumes "count_list xs x = 1"
  shows "\<exists>idx. list_index xs x = Some idx \<and> x \<notin> set (without_index idx xs)"
proof -
  from assms have "x \<in> set xs" by (metis count_list_0_iff zero_neq_one)
  then obtain a b where xs: "xs = a @ x # b" and a: "x \<notin> set a"
    by (meson split_list_first)
  from assms xs a have "x \<notin> set b" by (simp add: count_list_0_iff)
  with a xs list_index_first [OF a, of b]
  show ?thesis by (auto simp: without_index_def)
qed


text \<open>
  A header that names \<^verbatim>\<open>milestone_text\<close> twice: the first run removes the first
  of the two columns, the second run removes the other one and changes the file again.
\<close>

theorem second_run_counterexample:
  "snd (snd (migrate_csv_file
       (\<lambda>_. \<lparr>data = Some (''milestone_text,milestone_text'' @ [LF] @ ''a,b'' @ [LF]),
              writable = True\<rparr>) ''a-data.csv'')) \<and>
   data (fst (migrate_csv_file
       (fst (migrate_csv_file
          (\<lambda>_. \<lparr>data = Some (''milestone_text,milestone_text'' @ [LF] @ ''a,b'' @ [LF]),
                 writable = True\<rparr>) ''a-data.csv'')) ''a-data.csv'') ''a-data.csv'') \<noteq>
   data (fst (migrate_csv_file
       (\<lambda>_. \<lparr>data = Some (''milestone_text,milestone_text'' @ [LF] @ ''a,b'' @ [LF]),
              writable = True\<rparr>) ''a-data.csv'') ''a-data.csv'')"
  by (simp add: drop_simps reader_simps)

text \<open>
  C4, amended. Adding the columns: after a run that wrote the file without an exception,
  a second run finds both new names in the header and leaves the file as it is. Removing
  the column, for a header that names \<^verbatim>\<open>milestone_text\<close> exactly once: the first
  run writes the file, the second finds no such column and leaves the file as it is.
\<close>

theorem second_run_is_noop:
  "(data (fls p) = Some s \<and> writable (fls p) \<and>
    migrate_sessions_content p s = (msgs, WriteFile out None n) \<longrightarrow>
      migrate_sessions_file fls p =
        (write_file fls p out, ProcessingFile p # msgs @ [SuccessfullyMigratedSessions n p]) \<and>
      migrate_sessions_file (write_file fls p out) p =
        (write_file fls p out, [ProcessingFile p, AlreadyCompleted p])) \<and>
   (data (fls' q) = Some s' \<and> writable (fls' q) \<and>
    list_reader (readlines_translated s') = Inr (header # data_rows) \<and>
    count_list header ''milestone_text'' = 1 \<longrightarrow>
      (\<exists>fls1 msgs1.
         migrate_csv_file fls' q = (fls1, msgs1, True) \<and>
         migrate_csv_file fls1 q = (fls1, [Processing q, NoMilestoneTextColumn], False)))"
proof (intro conjI impI)
  assume a: "data (fls p) = Some s \<and> writable (fls p) \<and>
    migrate_sessions_content p s = (msgs, WriteFile out None n)"
  then show "migrate_sessions_file fls p =
        (write_file fls p out, ProcessingFile p # msgs @ [SuccessfullyMigratedSessions n p])"
    by (simp add: migrate_sessions_file_def open_read_def)
  from a have c: "migrate_sessions_content p s = (msgs, WriteFile out None n)" by simp
  from migrate_sessions_content_WriteFile [OF c] obtain cleaned h rest body where
    h: "Reader_iternext cleaned = Inr (Some h, rest)" and
    out: "out = csv_writerow (h @ [''action'', ''is_milestone'']) @ body"
    by blast
  have "\<forall>f \<in> set h. length f \<le> field_size_limit"
    using Reader_iternext_inv [OF h, of UNIV] by (simp add: field_ok_def)
  then have "migrate_sessions_content p out = ([AlreadyCompleted p], Continue)"
    unfolding out by (rule migrate_sessions_content_again)
  then show "migrate_sessions_file (write_file fls p out) p =
        (write_file fls p out, [ProcessingFile p, AlreadyCompleted p])"
    by (simp add: migrate_sessions_file_def open_read_def write_file_def)
next
  assume a: "data (fls' q) = Some s' \<and> writable (fls' q) \<and>
    list_reader (readlines_translated s') = Inr (header # data_rows) \<and>
    count_list header ''milestone_text'' = 1"
  then have d: "data (fls' q) = Some s'" and w: "writable (fls' q)"
    and r: "list_reader (readlines_translated s') = Inr (header # data_rows)"
    and c: "count_list header ''milestone_text'' = 1" by simp_all
  from without_index_once [OF c] obtain idx where
    idx: "list_index header ''milestone_text'' = Some idx" and
    gone: "''milestone_text'' \<notin> set (without_index idx header)" by blast
  let ?T = "without_index idx header # map (new_row idx) data_rows"
  let ?fls1 = "write_file fls' q (csv_writerows ?T)"
  note first = migrate_csv_file_writes [of fls' q s' header data_rows idx, OF d r idx w]
  have f: "\<forall>row \<in> set ?T. \<forall>f \<in> set row. length f \<le> field_size_limit \<and> CR \<notin> set f"
    by (rule new_rows_fields [OF r])
  have reread: "list_reader (readlines_translated (csv_writerows ?T)) = Inr ?T"
    using f by (intro csv_round_trip_translated) blast+
  have "migrate_csv_file ?fls1 q = (?fls1, [Processing q, NoMilestoneTextColumn], False)"
    using reread gone
    by (simp add: migrate_csv_file_def open_read_def write_file_def)
  with first show "\<exists>fls1 msgs1.
         migrate_csv_file fls' q = (fls1, msgs1, True) \<and>
         migrate_csv_file fls1 q = (fls1, [Processing q, NoMilestoneTextColumn], False)"
    by blast
qed

theorem second_run_is_noop_witness:
  "migrate_sessions_file
     (write_file
        (\<lambda>_. \<lparr>data = Some (''id,milestone_text'' @ [CR, LF] @ ''1,a b'' @ [CR, LF]),
               writable = True\<rparr>) ''a-data.csv''
        (''id,milestone_text,action,is_milestone'' @ [CR, LF] @
         ''id,milestone_text,milestone_text,1'' @ [CR, LF] @ ''1,a b,a b,1'' @ [CR, LF]))
     ''a-data.csv'' =
   (write_file
      (\<lambda>_. \<lparr>data = Some (''id,milestone_text'' @ [CR, LF] @ ''1,a b'' @ [CR, LF]),
             writable = True\<rparr>) ''a-data.csv''
      (''id,milestone_text,action,is_milestone'' @ [CR, LF] @
       ''id,milestone_text,milestone_text,1'' @ [CR, LF] @ ''1,a b,a b,1'' @ [CR, LF]),
    [ProcessingFile ''a-data.csv'', AlreadyCompleted ''a-data.csv'']) \<and>
   (\<exists>fls1 msgs1.
      migrate_csv_file
        (\<lambda>_. \<lparr>data = Some (''id,milestone_text,note'' @ [LF] @ ''1,hit 10k,ok'' @ [LF]),
               writable = True\<rparr>) ''b-data.csv'' = (fls1, msgs1, True) \<and>
      migrate_csv_file fls1 ''b-data.csv'' =
        (fls1, [Processing ''b-data.csv'', NoMilestoneTextColumn], False))"
proof -
  let ?s = "''id,milestone_text'' @ [CR, LF] @ ''1,a b'' @ [CR, LF]"
  let ?fls = "\<lambda>_::path. \<lparr>data = Some ?s, writable = True\<rparr>"
  let ?out = "''id,milestone_text,action,is_milestone'' @ [CR, LF] @
         ''id,milestone_text,milestone_text,1'' @ [CR, LF] @ ''1,a b,a b,1'' @ [CR, LF]"
  let ?s' = "''id,milestone_text,note'' @ [LF] @ ''1,hit 10k,ok'' @ [LF]"
  let ?fls' = "\<lambda>_::path. \<lparr>data = Some ?s', writable = True\<rparr>"
  have h1: "data (?fls ''a-data.csv'') = Some ?s \<and> writable (?fls ''a-data.csv'') \<and>
      migrate_sessions_content ''a-data.csv'' ?s = ([], WriteFile ?out None 2)"
    by (simp add: add_simps reader_simps)
  have h2: "data (?fls' ''b-data.csv'') = Some ?s' \<and> writable (?fls' ''b-data.csv'') \<and>
      list_reader (readlines_translated ?s') =
        Inr ([''id'', ''milestone_text'', ''note''] # [[''1'', ''hit 10k'', ''ok'']]) \<and>
      count_list [''id'', ''milestone_text'', ''note''] ''milestone_text'' = 1"
    by (simp add: readlines_translated_def reader_simps)
  from second_run_is_noop
    [of ?fls "''a-data.csv''" ?s "[]" ?out 2 ?fls' "''b-data.csv''" ?s'
       "[''id'', ''milestone_text'', ''note'']" "[[''1'', ''hit 10k'', ''ok'']]"]
    h1 h2
  show ?thesis by blast
qed

section \<open>Leading blank lines\<close>

text \<open>
  A run of blank lines: whitespace only, the last line ended by LF or CR.
\<close>

definition blank_lines :: "string \<Rightarrow> bool" where
  "blank_lines b \<longleftrightarrow> (\<forall>c \<in> set b. isspace c) \<and> (b = [] \<or> last b = LF \<or> last b = CR)"

abbreviation blank :: "string \<Rightarrow> bool" where
  "blank l \<equiv> strip l = []"

lemma strip_blank:
  assumes "\<forall>c \<in> set l. isspace c"
  shows "strip l = []"
proof -
  from assms have h: "dropWhile isspace l = []" by (simp add: dropWhile_eq_Nil_conv)
  show ?thesis unfolding strip_def h by simp
qed

lemma first_nonblank_eq:
  "first_nonblank i ls =
     (if dropWhile blank ls = [] then None else Some (i + length (takeWhile blank ls)))"
  by (induction ls arbitrary: i) auto

lemma clean_csv_file_content_eq:
  "clean_csv_file_content s =
     (dropWhile blank (readlines s), length (takeWhile blank (readlines s)))"
proof (cases "dropWhile blank (readlines s) = []")
  case True
  then have t: "takeWhile blank (readlines s) = readlines s"
    by (metis append_Nil2 takeWhile_dropWhile_id)
  show ?thesis
    unfolding clean_csv_file_content_def first_nonblank_eq Let_def True t by simp
next
  case False
  then have f: "first_nonblank 0 (readlines s) = Some (length (takeWhile blank (readlines s)))"
    unfolding first_nonblank_eq by (simp del: dropWhile_eq_Nil_conv)
  show ?thesis
    unfolding clean_csv_file_content_def Let_def f
    by (simp add: dropWhile_eq_drop [symmetric])
qed

lemma dropWhile_blank_prefix:
  assumes "\<forall>c \<in> set cur. isspace c" "\<forall>c \<in> set b. isspace c" "b \<noteq> []"
    "last b = LF \<or> last b = CR"
  shows "dropWhile blank (splitlines cur (b @ s)) = dropWhile blank (splitlines [] s)"
  using assms
proof (induction b arbitrary: cur)
  case Nil
  then show ?case by simp
next
  case (Cons c b)
  have sp: "isspace LF" "isspace CR" by (simp_all add: isspace_def)
  have bl: "blank (cur @ x)" if "\<forall>c \<in> set x. isspace c" for x
    using Cons.prems(1) that by (intro strip_blank) auto
  have IH: "dropWhile blank (splitlines cur' (b @ s)) = dropWhile blank (splitlines [] s)"
    if "b \<noteq> []" "\<forall>c \<in> set cur'. isspace c" for cur'
    using Cons.IH [OF that(2) _ that(1)] Cons.prems(2,4) that(1) by simp
  show ?case
  proof (cases "c = LF")
    case True
    show ?thesis
    proof (cases "b = []")
      case True
      with \<open>c = LF\<close> show ?thesis using bl [of "[LF]"] sp by (simp add: splitlines_LF)
    next
      case False
      with \<open>c = LF\<close> show ?thesis using bl [of "[LF]"] sp IH [of "[]"]
        by (simp add: splitlines_LF)
    qed
  next
    case nLF: False
    show ?thesis
    proof (cases "c = CR")
      case True
      show ?thesis
      proof (cases "b @ s")
        case Nil
        with True show ?thesis using bl [of "[CR]"] sp by (simp add: splitlines_CR)
      next
        case (Cons d ds)
        show ?thesis
        proof (cases "d = LF")
          case dLF: True
          have l: "dropWhile blank (splitlines cur (c # b @ s)) =
                   dropWhile blank (splitlines [] ds)"
            using True Cons dLF bl [of "[CR, LF]"] sp by (simp add: splitlines_CRLF)
          have r: "dropWhile blank (splitlines [] (b @ s)) = dropWhile blank (splitlines [] ds)"
            using Cons dLF strip_blank [of "[LF]"] sp by (simp add: splitlines_LF)
          show ?thesis
          proof (cases "b = []")
            case True
            with l r show ?thesis by simp
          next
            case False
            with l r IH [of "[]"] show ?thesis by simp
          qed
        next
          case dnLF: False
          with Cons have h: "b @ s = [] \<or> hd (b @ s) \<noteq> LF" by simp
          have l: "dropWhile blank (splitlines cur (c # b @ s)) =
                   dropWhile blank (splitlines [] (b @ s))"
            using True bl [of "[CR]"] sp by (simp add: splitlines_CR [OF h])
          show ?thesis
          proof (cases "b = []")
            case True
            with l show ?thesis by simp
          next
            case False
            with l IH [of "[]"] show ?thesis by simp
          qed
        qed
      qed
    next
      case False
      with nLF Cons.prems(4) have bne: "b \<noteq> []" by auto
      have "\<forall>x \<in> set (cur @ [c]). isspace x" using Cons.prems(1,2) by auto
      from IH [OF bne this] nLF False show ?thesis by (simp add: splitlines_other)
    qed
  qed
qed

lemma cleaned_lines_blank_prefix:
  assumes "blank_lines b"
  shows "dropWhile blank (readlines (b @ s)) = dropWhile blank (readlines s)"
proof (cases "b = []")
  case True
  then show ?thesis by simp
next
  case False
  with assms show ?thesis
    unfolding readlines_def blank_lines_def
    by (intro dropWhile_blank_prefix) auto
qed

lemma action_of_cleaned_lines:
  "snd (migrate_sessions_content name s) =
     (if dropWhile blank (readlines s) = [] then Continue
      else snd (migrate_cleaned name (dropWhile blank (readlines s))
                  (dropWhile blank (readlines s))))"
  by (simp add: migrate_sessions_content_def clean_csv_file_content_eq
      dropWhile_eq_drop [symmetric] split_beta)


text \<open>
  C5 at the input where the removal of the column breaks it. The file
  \<open>id,milestone_text / 1,x\<close> is migrated; the same file behind one empty line is not:
  \<^verbatim>\<open>migrate_csv_file\<close> has no step that skips blank lines, the empty first line is
  read as an empty header, and the file is skipped for want of the column it does have.
\<close>

theorem blank_lines_counterexample:
  "snd (snd (migrate_csv_file
       (\<lambda>_. \<lparr>data = Some (''id,milestone_text'' @ [LF] @ ''1,x'' @ [LF]), writable = True\<rparr>)
       ''a-data.csv'')) \<and>
   \<not> snd (snd (migrate_csv_file
       (\<lambda>_. \<lparr>data = Some ([LF] @ ''id,milestone_text'' @ [LF] @ ''1,x'' @ [LF]),
              writable = True\<rparr>)
       ''a-data.csv''))"
  by (simp add: drop_simps reader_simps)

text \<open>
  What the failing run leaves behind: the file as it was, the line about the missing
  column, and the flag \<open>False\<close>.
\<close>

lemma blank_first_line_skipped:
  "migrate_csv_file
     (\<lambda>_. \<lparr>data = Some ([LF] @ ''id,milestone_text'' @ [LF] @ ''1,x'' @ [LF]),
            writable = True\<rparr>) ''a-data.csv'' =
   (\<lambda>_. \<lparr>data = Some ([LF] @ ''id,milestone_text'' @ [LF] @ ''1,x'' @ [LF]),
          writable = True\<rparr>,
    [Processing ''a-data.csv'', NoMilestoneTextColumn], False)"
  by (simp add: drop_simps reader_simps)

text \<open>
  For the added columns the property holds: a file with blank lines in front is migrated
  as the file without them is. The same skip, the same exception or the same text
  written, with the same number of rows.
\<close>

theorem leading_blank_lines_skipped:
  assumes "blank_lines b"
  shows "snd (migrate_sessions_content name (b @ s)) = snd (migrate_sessions_content name s)"
  unfolding action_of_cleaned_lines cleaned_lines_blank_prefix [OF assms] ..

theorem leading_blank_lines_skipped_witness:
  "blank_lines ([LF] @ ''  '' @ [CR, LF]) \<and>
   snd (migrate_sessions_content ''a-data.csv''
          (([LF] @ ''  '' @ [CR, LF]) @ ''id,milestone_text'' @ [CR, LF] @ ''1,a b'' @ [CR, LF])) =
     WriteFile
       (''id,milestone_text,action,is_milestone'' @ [CR, LF] @
        ''id,milestone_text,milestone_text,1'' @ [CR, LF] @ ''1,a b,a b,1'' @ [CR, LF])
       None 2"
proof -
  let ?s = "''id,milestone_text'' @ [CR, LF] @ ''1,a b'' @ [CR, LF]"
  have b: "blank_lines ([LF] @ ''  '' @ [CR, LF])"
    by (simp add: blank_lines_def isspace_def)
  have "snd (migrate_sessions_content ''a-data.csv'' (([LF] @ ''  '' @ [CR, LF]) @ ?s)) =
        snd (migrate_sessions_content ''a-data.csv'' ?s)"
    by (rule leading_blank_lines_skipped [OF b])
  also have "\<dots> =
     WriteFile
       (''id,milestone_text,action,is_milestone'' @ [CR, LF] @
        ''id,milestone_text,milestone_text,1'' @ [CR, LF] @ ''1,a b,a b,1'' @ [CR, LF])
       None 2"
    by (simp add: add_simps reader_simps)
  finally show ?thesis using b by blast
qed

section \<open>A header with one of the two new names\<close>












section \<open>The number of data rows\<close>

text \<open>
  Removing the column keeps the number of data rows: the file written reads back as a
  header and as many data rows as were read.
\<close>

lemma drop_variant_row_count:
  assumes "data (fls file_path) = Some s"
    and "list_reader (readlines_translated s) = Inr (header # data_rows)"
    and "''milestone_text'' \<in> set header" and "writable (fls file_path)"
  shows "\<exists>out new_header new_data_rows.
           data (fst (migrate_csv_file fls file_path) file_path) = Some out \<and>
           list_reader (readlines_translated out) = Inr (new_header # new_data_rows) \<and>
           length new_data_rows = length data_rows"
proof -
  from assms(3) obtain a b where "header = a @ ''milestone_text'' # b" "''milestone_text'' \<notin> set a"
    by (meson split_list_first)
  then have idx: "list_index header ''milestone_text'' = Some (length a)"
    by (simp add: list_index_first)
  let ?T = "without_index (length a) header # map (new_row (length a)) data_rows"
  have "migrate_csv_file fls file_path =
          (write_file fls file_path (csv_writerows ?T),
           [Processing file_path, FoundAtIndex (length a),
            SuccessfullyMigrated (length data_rows),
            NewHeader (str_join '','' (without_index (length a) header))], True)"
    using assms(1,2) idx assms(4) by (simp add: migrate_csv_file_writes)
  then have d: "data (fst (migrate_csv_file fls file_path) file_path) = Some (csv_writerows ?T)"
    by (simp add: write_file_def)
  have "\<forall>row \<in> set ?T. \<forall>f \<in> set row. length f \<le> field_size_limit \<and> CR \<notin> set f"
    by (rule new_rows_fields [OF assms(2)])
  then have "list_reader (readlines_translated (csv_writerows ?T)) = Inr ?T"
    by (intro csv_round_trip_translated) blast+
  with d show ?thesis by auto
qed


text \<open>The same run on a file system.\<close>

lemma header_line_migrated_as_row_file:
  "migrate_sessions_file
     (\<lambda>_. \<lparr>data = Some (''id,milestone_text'' @ [LF] @
        ''1,'' @ [QUOTE] @ ''Reached goal'' @ [QUOTE] @ [LF] @ ''2,''), writable = True\<rparr>)
     ''a-data.csv'' =
   (write_file
      (\<lambda>_. \<lparr>data = Some (''id,milestone_text'' @ [LF] @
         ''1,'' @ [QUOTE] @ ''Reached goal'' @ [QUOTE] @ [LF] @ ''2,''), writable = True\<rparr>)
      ''a-data.csv''
      (''id,milestone_text,action,is_milestone'' @ [CR, LF] @
       ''id,milestone_text,milestone_text,1'' @ [CR, LF] @
       ''1,Reached goal,Reached goal,1'' @ [CR, LF] @
       ''2,,,0'' @ [CR, LF]),
    [ProcessingFile ''a-data.csv'', SuccessfullyMigratedSessions 3 ''a-data.csv''])"
  by (simp add: migrate_sessions_file_def open_read_def add_simps reader_simps)

section \<open>Exit status\<close>

text \<open>
  The script that adds the columns exits with status 1 unless it is given one argument
  that names a directory; the script that removes the column exits with status 0 on
  every path.
\<close>

lemma main_exit_status: "fst (main w JUJU_DATA_DIR) = 0"
  by (simp add: main_def Let_def split: prod.splits)

lemma migrate_sessions_main_exit_status:
  "fst (migrate_sessions_main w argv) =
     (if length argv = 2 \<and>
         path_isdir w (if take 1 (argv ! 1) = ''~'' then expanduser w (argv ! 1) else argv ! 1)
      then 0 else 1)"
  by (simp add: migrate_sessions_main_def Let_def split: prod.splits)


section \<open>The two new fields of a row\<close>


lemma strip_Nil [simp]: "strip [] = []"
  by (simp add: strip_def)


text \<open>
  The key search of a row goes through the named fields first and reaches the key
  \<^verbatim>\<open>None\<close>, which holds the fields a row has beyond the header, only when no name
  matched; there \<^verbatim>\<open>None.lower()\<close> raises.
\<close>

lemma restkey_DictReader_row:
  "restkey (DictReader_row fieldnames r) = None \<longleftrightarrow> length r \<le> length fieldnames"
  by (auto simp: DictReader_row_def Let_def)

lemma long_row_without_match_raises:
  "migrate_row (DictReader_row [''id''] [''1'', ''x'']) = Inl AttributeError"
  by (simp add: add_simps)



section \<open>One file fails, the batch goes on\<close>



lemma migrate_csv_file_failed:
  "\<not> snd (snd (migrate_csv_file fls p)) \<Longrightarrow> fst (migrate_csv_file fls p) = fls"
  by (auto simp: migrate_csv_file_def open_read_def Let_def
      split: option.splits sum.splits list.splits if_splits)
















end
